theory Spec2Isabelle
  imports Main
begin

section \<open>Graph nodes of \<^verbatim>\<open>core/lib/lantern/base-node.js\<close>\<close>

text \<open>
  A \<^verbatim>\<open>BaseNode\<close> is a JavaScript object; its edge lists hold references to other
  node objects and are compared with \<^verbatim>\<open>===\<close>. The model keeps the objects in a
  store indexed by reference. Every reference denotes an object, as in JavaScript.
\<close>

type_synonym ref = nat

record node =
  node_id :: string
  isMainDocument :: bool
  dependents :: "ref list"
  dependencies :: "ref list"

type_synonym heap = "ref \<Rightarrow> node"

text \<open>The errors the class throws, named as in the error taxonomy of the specification.\<close>

datatype error =
    SelfDependencyError       \<comment> \<open>\<^verbatim>\<open>Cannot add dependency on itself\<close>\<close>
  | CloneConsistencyError     \<comment> \<open>\<^verbatim>\<open>Dependency somehow not cloned\<close>\<close>
  | CloneResultMissingError   \<comment> \<open>\<^verbatim>\<open>Cloned graph missing node\<close>\<close>
  | TypeError                 \<comment> \<open>reading a property of \<^verbatim>\<open>undefined\<close>\<close>

text \<open>
  A call either returns or throws; in both cases it leaves a store behind. The first
  component is \<open>None\<close> for a normal return and \<open>Some e\<close> when \<open>e\<close> was thrown.
\<close>

type_synonym 's outcome = "error option \<times> 's"

subsection \<open>Array primitives\<close>

text \<open>\<^verbatim>\<open>Array.prototype.indexOf\<close>: the first index of the element, or \<open>-1\<close>.\<close>

fun indexOf :: "'a list \<Rightarrow> 'a \<Rightarrow> int" where
  "indexOf [] x = -1"
| "indexOf (y # ys) x =
     (if y = x then 0 else (let i = indexOf ys x in if i < 0 then -1 else i + 1))"

text \<open>
  \<^verbatim>\<open>xs.splice(start, 1)\<close>: a negative \<open>start\<close> counts from the end (clamped at 0), a
  \<open>start\<close> beyond the end is clamped to the length; one element is removed from there
  when there is one.
\<close>

definition splice1 :: "'a list \<Rightarrow> int \<Rightarrow> 'a list" where
  "splice1 xs start =
     (let n = int (length xs);
          s = (if start < 0 then max (n + start) 0 else min start n)
      in take (nat s) xs @ drop (Suc (nat s)) xs)"

subsection \<open>Edge management\<close>

definition getDependents :: "heap \<Rightarrow> ref \<Rightarrow> ref list" where
  "getDependents h this = dependents (h this)"

definition getDependencies :: "heap \<Rightarrow> ref \<Rightarrow> ref list" where
  "getDependencies h this = dependencies (h this)"

definition addDependency :: "heap \<Rightarrow> ref \<Rightarrow> ref \<Rightarrow> heap outcome" where
  "addDependency h this n =
     (if n = this then (Some SelfDependencyError, h)
      else if n \<in> set (dependencies (h this)) then (None, h)
      else
        let h1 = h(n := (h n)\<lparr>dependents := dependents (h n) @ [this]\<rparr>);
            h2 = h1(this := (h1 this)\<lparr>dependencies := dependencies (h1 this) @ [n]\<rparr>)
        in (None, h2))"

definition addDependent :: "heap \<Rightarrow> ref \<Rightarrow> ref \<Rightarrow> heap outcome" where
  "addDependent h this n = addDependency h n this"

definition removeDependency :: "heap \<Rightarrow> ref \<Rightarrow> ref \<Rightarrow> heap" where
  "removeDependency h this n =
     (if n \<notin> set (dependencies (h this)) then h
      else
        let thisIndex = indexOf (dependents (h n)) this;
            h1 = h(n := (h n)\<lparr>dependents := splice1 (dependents (h n)) thisIndex\<rparr>);
            h2 = h1(this := (h1 this)\<lparr>dependencies :=
                   splice1 (dependencies (h1 this)) (indexOf (dependencies (h1 this)) n)\<rparr>)
        in h2)"

definition removeDependent :: "heap \<Rightarrow> ref \<Rightarrow> ref \<Rightarrow> heap" where
  "removeDependent h this n = removeDependency h n this"

text \<open>The loop runs over a copy of the list taken before the first removal.\<close>

definition removeAllDependencies :: "heap \<Rightarrow> ref \<Rightarrow> heap" where
  "removeAllDependencies h this =
     foldl (\<lambda>h' n. removeDependency h' this n) h (dependencies (h this))"

subsection \<open>Construction and root resolution\<close>

text \<open>The constructor: the given id, not the main document, no edges.\<close>

definition new_BaseNode :: "string \<Rightarrow> node" where
  "new_BaseNode i = \<lparr>node_id = i, isMainDocument = False, dependents = [], dependencies = []\<rparr>"

text \<open>
  \<^verbatim>\<open>getRootNode\<close> follows the first dependency while there is one. On a cyclic chain
  the loop never ends; the result is then \<open>None\<close>.
\<close>

partial_function (option) getRootNode :: "heap \<Rightarrow> ref \<Rightarrow> ref option" where
  "getRootNode h rootNode =
     (case dependencies (h rootNode) of
        [] \<Rightarrow> Some rootNode
      | d # _ \<Rightarrow> getRootNode h d)"

declare getRootNode.simps [code]

subsection \<open>Traversal\<close>

text \<open>
  The \<^verbatim>\<open>for\<close> loop of \<^verbatim>\<open>traverseGenerator\<close> over the nodes returned by
  \<^verbatim>\<open>getNextNodes\<close>: a node whose id is in \<open>visited\<close> is skipped, any other has its
  id added and its path pushed at the end of the queue.
\<close>

fun enqueue_next ::
  "(ref \<Rightarrow> string) \<Rightarrow> ref list \<Rightarrow> ref list \<Rightarrow> ref list list \<times> string set
     \<Rightarrow> ref list list \<times> string set" where
  "enqueue_next idf traversalPath [] (queue, visited) = (queue, visited)"
| "enqueue_next idf traversalPath (nextNode # ns) (queue, visited) =
     (if idf nextNode \<in> visited then enqueue_next idf traversalPath ns (queue, visited)
      else enqueue_next idf traversalPath ns
             (queue @ [nextNode # traversalPath], insert (idf nextNode) visited))"

text \<open>
  \<^verbatim>\<open>traverse\<close> consumes \<^verbatim>\<open>traverseGenerator\<close> in a \<^verbatim>\<open>for ... of\<close> loop: the generator
  runs to its \<^verbatim>\<open>yield\<close>, the callback runs on what was yielded, and the generator
  resumes with the call of \<^verbatim>\<open>getNextNodes\<close>. Callback and expansion function are
  closures: they read and change a state \<open>'s\<close> of the caller, and \<open>idf s\<close> reads the
  id of a node in that state. One round of the \<^verbatim>\<open>while\<close> loop is one unfolding below.
  A callback may throw, which ends the traversal, or run forever (\<open>None\<close>).
  The queue only ever holds non-empty paths (it starts with \<^verbatim>\<open>[this]\<close> and a pushed path
  is \<^verbatim>\<open>[nextNode, ...traversalPath]\<close>); for an empty one \<^verbatim>\<open>traversalPath[0]\<close> would be
  \<^verbatim>\<open>undefined\<close> and the next property read would throw.
\<close>

partial_function (option) traverse_loop ::
  "('s \<Rightarrow> ref \<Rightarrow> string) \<Rightarrow> ('s \<Rightarrow> ref \<Rightarrow> ref list) \<Rightarrow>
   (ref \<Rightarrow> ref list \<Rightarrow> 's \<Rightarrow> 's outcome option) \<Rightarrow>
   ref list list \<Rightarrow> string set \<Rightarrow> 's \<Rightarrow> 's outcome option" where
  "traverse_loop idf getNextNodes callback queue visited s =
     (case queue of
        [] \<Rightarrow> Some (None, s)
      | traversalPath # queue' \<Rightarrow>
          (case traversalPath of
             [] \<Rightarrow> Some (Some TypeError, s)
           | n # _ \<Rightarrow>
               (case callback n traversalPath s of
                  None \<Rightarrow> None
                | Some (Some e, s') \<Rightarrow> Some (Some e, s')
                | Some (None, s') \<Rightarrow>
                    (case enqueue_next (idf s') traversalPath (getNextNodes s' n)
                            (queue', visited) of
                       (queue'', visited') \<Rightarrow>
                         traverse_loop idf getNextNodes callback queue'' visited' s'))))"

declare traverse_loop.simps [code]

definition traverse ::
  "('s \<Rightarrow> ref \<Rightarrow> string) \<Rightarrow> ref \<Rightarrow> (ref \<Rightarrow> ref list \<Rightarrow> 's \<Rightarrow> 's outcome option) \<Rightarrow>
   ('s \<Rightarrow> ref \<Rightarrow> ref list) \<Rightarrow> 's \<Rightarrow> 's outcome option" where
  "traverse idf this callback getNextNodes s =
     traverse_loop idf getNextNodes callback [[this]] {idf s this} s"

text \<open>
  The sequence \<^verbatim>\<open>traverseGenerator\<close> yields, for an expansion function that reads
  nothing but the node it is given: the pairs of a node and its traversal path, in the
  order of the yields. Without an expansion function the dependents are followed
  (\<^verbatim>\<open>if (!getNextNodes) getNextNodes = node => node.getDependents()\<close>).
\<close>

definition expansion :: "heap \<Rightarrow> (ref \<Rightarrow> ref list) option \<Rightarrow> ref \<Rightarrow> ref list" where
  "expansion h getNextNodes =
     (case getNextNodes of None \<Rightarrow> getDependents h | Some f \<Rightarrow> f)"

definition traverseGenerator ::
  "heap \<Rightarrow> ref \<Rightarrow> (ref \<Rightarrow> ref list) option \<Rightarrow> (ref \<times> ref list) list option" where
  "traverseGenerator h this getNextNodes =
     map_option snd
       (traverse (\<lambda>_ r. node_id (h r)) this
          (\<lambda>n traversalPath ys. Some (None, ys @ [(n, traversalPath)]))
          (\<lambda>_. expansion h getNextNodes) [])"

subsection \<open>Cycle detection\<close>

datatype direction = Dependents | Dependencies | Both

text \<open>
  The inner \<^verbatim>\<open>for\<close> loop of \<^verbatim>\<open>hasCycle\<close>: a node already in \<open>toVisit\<close> is skipped
  (its recorded depth stays); any other is pushed with the current path length.
  The top of the stack \<open>toVisit\<close> is the last element of the list.
\<close>

fun push_next ::
  "nat \<Rightarrow> ref list \<Rightarrow> ref list \<times> (ref \<rightharpoonup> nat) \<Rightarrow> ref list \<times> (ref \<rightharpoonup> nat)" where
  "push_next len [] (toVisit, depthAdded) = (toVisit, depthAdded)"
| "push_next len (nextNode # ns) (toVisit, depthAdded) =
     (if nextNode \<in> set toVisit then push_next len ns (toVisit, depthAdded)
      else push_next len ns (toVisit @ [nextNode], depthAdded(nextNode \<mapsto> len)))"

text \<open>
  \<^verbatim>\<open>while (currentPath.length > depthAdded.get(currentNode)) currentPath.pop()\<close>:
  the path is cut to the recorded depth; with no recorded depth the comparison
  with \<^verbatim>\<open>undefined\<close> is false and nothing is popped.
\<close>

definition backtrack :: "ref list \<Rightarrow> nat option \<Rightarrow> ref list" where
  "backtrack currentPath d = (case d of None \<Rightarrow> currentPath | Some k \<Rightarrow> take k currentPath)"

partial_function (option) hasCycle_loop ::
  "heap \<Rightarrow> direction \<Rightarrow> ref set \<Rightarrow> ref list \<Rightarrow> ref list \<Rightarrow> (ref \<rightharpoonup> nat) \<Rightarrow> bool option" where
  "hasCycle_loop h dir visited currentPath toVisit depthAdded =
     (if toVisit = [] then Some False
      else
        let currentNode = last toVisit; toVisit1 = butlast toVisit in
        if currentNode \<in> set currentPath then Some True
        else if currentNode \<in> visited
          then hasCycle_loop h dir visited currentPath toVisit1 depthAdded
        else
          let currentPath1 = backtrack currentPath (depthAdded currentNode) @ [currentNode];
              nodesToExplore =
                (if dir = Dependents then dependents (h currentNode)
                 else dependencies (h currentNode))
          in (case push_next (length currentPath1) nodesToExplore (toVisit1, depthAdded) of
                (toVisit2, depthAdded2) \<Rightarrow>
                  hasCycle_loop h dir (insert currentNode visited) currentPath1
                    toVisit2 depthAdded2))"

declare hasCycle_loop.simps [code]

definition hasCycle :: "heap \<Rightarrow> ref \<Rightarrow> direction \<Rightarrow> bool option" where
  "hasCycle h n dir =
     (if dir = Both then
        (case hasCycle_loop h Dependents {} [] [n] [n \<mapsto> 0] of
           None \<Rightarrow> None
         | Some True \<Rightarrow> Some True
         | Some False \<Rightarrow> hasCycle_loop h Dependencies {} [] [n] [n \<mapsto> 0])
      else hasCycle_loop h dir {} [] [n] [n \<mapsto> 0])"

subsection \<open>Cloning\<close>

text \<open>
  \<^verbatim>\<open>new\<close> creates an object no existing reference denotes. The store therefore
  carries the next unused reference; every object in use lies below it.
\<close>

record store =
  heap :: heap
  next_ref :: ref

definition cloneWithoutRelationships :: "store \<Rightarrow> ref \<Rightarrow> ref \<times> store" where
  "cloneWithoutRelationships st this =
     (let r = next_ref st;
          n = (new_BaseNode (node_id (heap st this)))
                \<lparr>isMainDocument := isMainDocument (heap st this)\<rparr>
      in (r, \<lparr>heap = (heap st)(r := n), next_ref = Suc r\<rparr>))"

text \<open>
  The state of \<^verbatim>\<open>cloneWithRelationships\<close> and of its callbacks: the store and the
  local map \<^verbatim>\<open>idsToIncludedClones\<close>.
\<close>

type_synonym clone_state = "store \<times> (string \<rightharpoonup> ref)"

definition state_id :: "clone_state \<Rightarrow> ref \<Rightarrow> string" where
  "state_id s r = node_id (heap (fst s) r)"

text \<open>\<^verbatim>\<open>node => idsToIncludedClones.set(node.id, node.cloneWithoutRelationships())\<close>\<close>

definition set_clone :: "ref \<Rightarrow> ref list \<Rightarrow> clone_state \<Rightarrow> clone_state outcome option" where
  "set_clone n traversalPath s =
     (case cloneWithoutRelationships (fst s) n of
        (c, st') \<Rightarrow> Some (None, (st', (snd s)(node_id (heap (fst s) n) \<mapsto> c))))"

text \<open>\<^verbatim>\<open>node => node._dependencies.filter(parent => !idsToIncludedClones.has(parent.id))\<close>\<close>

definition uncloned_dependencies :: "clone_state \<Rightarrow> ref \<Rightarrow> ref list" where
  "uncloned_dependencies s n =
     filter (\<lambda>parent. snd s (state_id s parent) = None) (dependencies (heap (fst s) n))"

text \<open>The callback of the first traversal (walk down dependents).\<close>

definition include_node ::
  "(ref \<Rightarrow> bool) option \<Rightarrow> ref \<Rightarrow> ref list \<Rightarrow> clone_state \<Rightarrow> clone_state outcome option" where
  "include_node predicate n traversalPath s =
     (if snd s (state_id s n) \<noteq> None then Some (None, s)
      else
        (case predicate of
           None \<Rightarrow> set_clone n traversalPath s
         | Some p \<Rightarrow>
             if p n then traverse state_id n set_clone uncloned_dependencies s
             else Some (None, s)))"

text \<open>
  The \<^verbatim>\<open>for\<close> loop of the second traversal's callback, over the dependencies of the
  original node; \<open>clonedNode\<close> is the clone of that node. The loop body changes the edge
  lists of clones only, which are objects created during the call, so the list it runs
  over is the one read at its start.
\<close>

fun copy_dependencies :: "ref \<Rightarrow> ref list \<Rightarrow> clone_state \<Rightarrow> clone_state outcome" where
  "copy_dependencies clonedNode [] s = (None, s)"
| "copy_dependencies clonedNode (dependency # ds) s =
     (case snd s (state_id s dependency) of
        None \<Rightarrow> (Some CloneConsistencyError, s)
      | Some clonedDependency \<Rightarrow>
          (case addDependency (heap (fst s)) clonedNode clonedDependency of
             (Some e, h') \<Rightarrow> (Some e, ((fst s)\<lparr>heap := h'\<rparr>, snd s))
           | (None, h') \<Rightarrow> copy_dependencies clonedNode ds ((fst s)\<lparr>heap := h'\<rparr>, snd s)))"

definition copy_edges :: "ref \<Rightarrow> ref list \<Rightarrow> clone_state \<Rightarrow> clone_state outcome option" where
  "copy_edges originalNode traversalPath s =
     (case snd s (state_id s originalNode) of
        None \<Rightarrow> Some (None, s)
      | Some clonedNode \<Rightarrow>
          Some (copy_dependencies clonedNode (dependencies (heap (fst s) originalNode)) s))"

text \<open>
  The result is the thrown error or the clone of the receiver, with the store left
  behind; \<open>None\<close> when the call does not return.
\<close>

definition cloneWithRelationships ::
  "store \<Rightarrow> ref \<Rightarrow> (ref \<Rightarrow> bool) option \<Rightarrow> ((error + ref) \<times> store) option" where
  "cloneWithRelationships st this predicate =
     (case getRootNode (heap st) this of
        None \<Rightarrow> None
      | Some rootNode \<Rightarrow>
          (case traverse state_id rootNode (include_node predicate)
                  (\<lambda>s n. getDependents (heap (fst s)) n) (st, Map.empty) of
             None \<Rightarrow> None
           | Some (Some e, s1) \<Rightarrow> Some (Inl e, fst s1)
           | Some (None, s1) \<Rightarrow>
               (case traverse state_id rootNode copy_edges
                       (\<lambda>s n. getDependents (heap (fst s)) n) s1 of
                  None \<Rightarrow> None
                | Some (Some e, s2) \<Rightarrow> Some (Inl e, fst s2)
                | Some (None, s2) \<Rightarrow>
                    (case snd s2 (state_id s2 this) of
                       None \<Rightarrow> Some (Inl CloneResultMissingError, fst s2)
                     | Some clonedThisNode \<Rightarrow> Some (Inr clonedThisNode, fst s2)))))"

section \<open>Graphs: predicates and examples\<close>

text \<open>
  The symmetry of the two edge lists, and the absence of duplicate entries
  (invariant 2 of the data model).
\<close>

definition edge_symmetry :: "heap \<Rightarrow> bool" where
  "edge_symmetry h \<longleftrightarrow>
     (\<forall>a b. a \<in> set (dependencies (h b)) \<longleftrightarrow> b \<in> set (dependents (h a)))"

definition no_duplicate_edges :: "heap \<Rightarrow> bool" where
  "no_duplicate_edges h \<longleftrightarrow>
     (\<forall>a. distinct (dependencies (h a)) \<and> distinct (dependents (h a)))"

text \<open>
  The states the class can build. They start from nodes without edges; a node is
  constructed (\<^verbatim>\<open>new BaseNode(id)\<close>) where there is an object without edges,
  \<^verbatim>\<open>setIsMainDocument\<close> changes the flag of a node, and the edge operations do the rest
  (\<^verbatim>\<open>addDependent\<close> and \<^verbatim>\<open>removeDependent\<close> are \<^verbatim>\<open>addDependency\<close> and
  \<^verbatim>\<open>removeDependency\<close> with the roles exchanged). The edge lists are private fields:
  nothing else writes them.
\<close>

inductive built :: "heap \<Rightarrow> bool" where
  fresh: "(\<And>r. dependencies (h r) = [] \<and> dependents (h r) = []) \<Longrightarrow> built h"
| created: "built h \<Longrightarrow> dependencies (h r) = [] \<and> dependents (h r) = [] \<Longrightarrow>
            built (h(r := new_BaseNode i))"
| flagged: "built h \<Longrightarrow> built (h(r := (h r)\<lparr>isMainDocument := v\<rparr>))"
| added: "built h \<Longrightarrow> built (snd (addDependency h a b))"
| removed: "built h \<Longrightarrow> built (removeDependency h a b)"
| removed_all: "built h \<Longrightarrow> built (removeAllDependencies h a)"

text \<open>The edge relations: \<open>(a, b)\<close> when \<open>b\<close> is listed by \<open>a\<close>.\<close>

definition depends_on :: "heap \<Rightarrow> (ref \<times> ref) set" where
  "depends_on h = {(a, b). b \<in> set (dependencies (h a))}"

definition depended_by :: "heap \<Rightarrow> (ref \<times> ref) set" where
  "depended_by h = {(a, b). b \<in> set (dependents (h a))}"

text \<open>\<open>add_edge a b\<close> is the call \<^verbatim>\<open>a.addDependency(b)\<close>, keeping the store.\<close>

definition add_edge :: "ref \<Rightarrow> ref \<Rightarrow> heap \<Rightarrow> heap" where
  "add_edge a b h = snd (addDependency h a b)"

text \<open>Four unconnected nodes \<open>A\<close>, \<open>B\<close>, \<open>C\<close>, \<open>D\<close> at the references 0 to 3.\<close>

definition abcd_nodes :: heap where
  "abcd_nodes = (\<lambda>_. new_BaseNode [])
     (0 := new_BaseNode ''A'', 1 := new_BaseNode ''B'',
      2 := new_BaseNode ''C'', 3 := new_BaseNode ''D'')"

text \<open>\<open>A\<close> depends on \<open>B\<close>, \<open>B\<close> on \<open>C\<close>; in the cycle \<open>C\<close> depends on \<open>A\<close> as well.\<close>

definition chain_heap :: heap where
  "chain_heap = add_edge 1 2 (add_edge 0 1 abcd_nodes)"

definition cycle_heap :: heap where
  "cycle_heap = add_edge 2 0 chain_heap"

text \<open>The diamond: \<open>A\<close> depends on \<open>B\<close> and \<open>C\<close>, both depend on \<open>D\<close>.\<close>

definition diamond_heap :: heap where
  "diamond_heap = add_edge 2 3 (add_edge 1 3 (add_edge 0 2 (add_edge 0 1 abcd_nodes)))"

text \<open>\<open>A\<close> depends on \<open>B\<close> and on \<open>C\<close>, and \<open>B\<close> and \<open>C\<close> depend on each other.\<close>

definition tangle_heap :: heap where
  "tangle_heap = add_edge 2 1 (add_edge 1 2 (add_edge 0 2 (add_edge 0 1 abcd_nodes)))"

text \<open>
  A state with a duplicate entry: \<open>x\<close> (reference 1) lists its dependent \<open>a\<close>
  (reference 0) twice, \<open>a\<close> lists \<open>x\<close> once.
\<close>

definition dup_heap :: heap where
  "dup_heap = (\<lambda>_. new_BaseNode [])
     (0 := \<lparr>node_id = ''a'', isMainDocument = False, dependents = [], dependencies = [1]\<rparr>,
      1 := \<lparr>node_id = ''x'', isMainDocument = False, dependents = [0, 0], dependencies = []\<rparr>)"

text \<open>\<open>A\<close> depends on \<open>B\<close> and on \<open>C\<close>; neither \<open>B\<close> nor \<open>C\<close> has a dependency.\<close>

definition two_roots_heap :: heap where
  "two_roots_heap = add_edge 0 2 (add_edge 0 1 abcd_nodes)"

subsection \<open>Traversal: paths and the loop invariant\<close>

text \<open>
  The nodes the \<^verbatim>\<open>for\<close> loop of the generator pushes: those of the list whose id
  is neither visited nor met earlier in the list.
\<close>

fun fresh_next :: "(ref \<Rightarrow> string) \<Rightarrow> string set \<Rightarrow> ref list \<Rightarrow> ref list" where
  "fresh_next idf vis [] = []"
| "fresh_next idf vis (n # ns) =
     (if idf n \<in> vis then fresh_next idf vis ns
      else n # fresh_next idf (insert (idf n) vis) ns)"

text \<open>The edges an expansion function defines: \<open>(a, b)\<close> when \<open>b\<close> is a next node of \<open>a\<close>.\<close>

definition expansion_rel :: "(ref \<Rightarrow> ref list) \<Rightarrow> (ref \<times> ref) set" where
  "expansion_rel g = {(a, b). b \<in> set (g a)}"

text \<open>
  A list \<open>p\<close> is a path back to \<open>start\<close>: it ends in \<open>start\<close> and every element is a
  next node of the element after it.
\<close>

fun is_path :: "(ref \<Rightarrow> ref list) \<Rightarrow> ref \<Rightarrow> ref list \<Rightarrow> bool" where
  "is_path g start [] = False"
| "is_path g start [x] = (x = start)"
| "is_path g start (x # y # r) = (x \<in> set (g y) \<and> is_path g start (y # r))"

text \<open>
  The invariant of the generator loop, over the queue, the visited ids and the pairs
  yielded so far: the visited ids are those of the yielded and queued heads, no id
  occurs twice among them, every path leads back to the start, lengths do not decrease
  along yields and queue, the queue spans at most two lengths, and (for unique ids)
  every next node of a yielded node is yielded or queued with a path at most one longer.
\<close>

definition bfs_inv ::
  "(ref \<Rightarrow> ref list) \<Rightarrow> (ref \<Rightarrow> string) \<Rightarrow> ref \<Rightarrow> ref set \<Rightarrow>
   ref list list \<Rightarrow> string set \<Rightarrow> (ref \<times> ref list) list \<Rightarrow> bool" where
  "bfs_inv g f start U q vis ys \<longleftrightarrow>
     (\<forall>y \<in> set ys. fst y = hd (snd y)) \<and>
     vis = f ` hd ` set (map snd ys @ q) \<and>
     distinct (map (\<lambda>p. f (hd p)) (map snd ys @ q)) \<and>
     (\<forall>p \<in> set (map snd ys @ q). is_path g start p \<and> hd p \<in> U) \<and>
     [start] \<in> set (map snd ys @ q) \<and>
     sorted (map length (map snd ys @ q)) \<and>
     (\<forall>p \<in> set q. length p \<le> Suc (length (hd q))) \<and>
     (inj_on f U \<longrightarrow>
        (\<forall>y \<in> set ys. \<forall>w \<in> set (g (fst y)).
           \<exists>pw \<in> set (map snd ys @ q). hd pw = w \<and> length pw \<le> Suc (length (snd y))))"

text \<open>
  The traversal path of C7 in the words of the claim: its first element is the node, its
  last element the start, and each element is a next node of its successor in the list.
\<close>

definition traversal_path :: "(ref \<Rightarrow> ref list) \<Rightarrow> ref \<Rightarrow> ref \<Rightarrow> ref list \<Rightarrow> bool" where
  "traversal_path g start n p \<longleftrightarrow>
     p \<noteq> [] \<and> hd p = n \<and> last p = start \<and>
     (\<forall>i. Suc i < length p \<longrightarrow> p ! i \<in> set (g (p ! Suc i)))"

subsection \<open>Cloning: graphs and invariants\<close>

text \<open>
  A graph of the data model in a store: a finite set of allocated nodes, closed under
  both edge lists, with pairwise distinct ids and without a dependency cycle. These are
  the invariants the header of \<^verbatim>\<open>base-node.js\<close> states for the class: "A node has a unique
  identifier", "The graph is a DAG, there are no cycles".
\<close>

definition graph_in_store :: "store \<Rightarrow> ref set \<Rightarrow> bool" where
  "graph_in_store st G \<longleftrightarrow>
     finite G \<and>
     (\<forall>n\<in>G. n < next_ref st \<and>
        set (dependencies (heap st n)) \<subseteq> G \<and> set (dependents (heap st n)) \<subseteq> G) \<and>
     inj_on (\<lambda>r. node_id (heap st r)) G \<and>
     acyclic (Restr (depends_on (heap st)) G)"

text \<open>
  What holds of the store and of \<^verbatim>\<open>idsToIncludedClones\<close> throughout a call of
  \<^verbatim>\<open>cloneWithRelationships\<close> on the store \<open>st0\<close>: the objects of \<open>st0\<close> are untouched, every
  entry of the map is an object created since, with the id it is filed under and the
  main-document flag of the original, and every id in the map is the id of a node on the
  dependency chain of a node the predicate accepts.
\<close>

definition clone_inv :: "store \<Rightarrow> ref set \<Rightarrow> (ref \<Rightarrow> bool) \<Rightarrow> clone_state \<Rightarrow> bool" where
  "clone_inv st0 G p s \<longleftrightarrow>
     next_ref st0 \<le> next_ref (fst s) \<and>
     (\<forall>r. r < next_ref st0 \<longrightarrow> heap (fst s) r = heap st0 r) \<and>
     (\<forall>i c. snd s i = Some c \<longrightarrow>
        next_ref st0 \<le> c \<and> c < next_ref (fst s) \<and> node_id (heap (fst s) c) = i) \<and>
     (\<forall>a\<in>G. \<forall>c. snd s (node_id (heap st0 a)) = Some c \<longrightarrow>
        isMainDocument (heap (fst s) c) = isMainDocument (heap st0 a)) \<and>
     (\<forall>i\<in>dom (snd s). \<exists>a\<in>G. node_id (heap st0 a) = i \<and>
        (\<exists>n\<in>G. p n \<and> (n, a) \<in> (depends_on (heap st0))\<^sup>*))"

text \<open>
  The dependencies of every cloned node are cloned too, or are the heads of paths still
  waiting in the queue \<open>q\<close>.
\<close>

definition deps_cloned :: "store \<Rightarrow> ref set \<Rightarrow> clone_state \<Rightarrow> ref list list \<Rightarrow> bool" where
  "deps_cloned st0 G s q \<longleftrightarrow>
     (\<forall>a\<in>G. node_id (heap st0 a) \<in> dom (snd s) \<longrightarrow>
        (\<forall>d\<in>set (dependencies (heap st0 a)).
           node_id (heap st0 d) \<in> dom (snd s) \<union> (\<lambda>pa. node_id (heap st0 (hd pa))) ` set q))"

text \<open>The invariant of the walk back up the dependencies from an accepted node \<open>n\<close>.\<close>

definition inner_inv ::
  "store \<Rightarrow> ref set \<Rightarrow> (ref \<Rightarrow> bool) \<Rightarrow> ref \<Rightarrow> (string \<rightharpoonup> ref) \<Rightarrow>
   ref list list \<Rightarrow> string set \<Rightarrow> clone_state \<Rightarrow> bool" where
  "inner_inv st0 G p n m0 q vis s \<longleftrightarrow>
     clone_inv st0 G p s \<and> deps_cloned st0 G s q \<and>
     (\<forall>pa\<in>set q. pa \<noteq> [] \<and> hd pa \<in> G \<and> (n, hd pa) \<in> (depends_on (heap st0))\<^sup>*) \<and>
     vis \<subseteq> dom (snd s) \<union> (\<lambda>pa. node_id (heap st0 (hd pa))) ` set q \<and>
     node_id (heap st0 n) \<in> vis \<and> dom m0 \<subseteq> dom (snd s)"

text \<open>
  The invariant of the first traversal (down the dependents from the root): the
  traversal invariant for some list of yields, every accepted node yielded so far is
  cloned, and the cloned nodes are closed under dependencies.
\<close>

definition walk_down_inv ::
  "store \<Rightarrow> ref set \<Rightarrow> (ref \<Rightarrow> bool) \<Rightarrow> ref \<Rightarrow>
   ref list list \<Rightarrow> string set \<Rightarrow> clone_state \<Rightarrow> bool" where
  "walk_down_inv st0 G p root q vis s \<longleftrightarrow>
     (\<exists>ys. bfs_inv (\<lambda>n. dependents (heap st0 n)) (\<lambda>r. node_id (heap st0 r)) root G q vis ys \<and>
           (\<forall>y\<in>set ys. p (fst y) \<longrightarrow> node_id (heap st0 (fst y)) \<in> dom (snd s))) \<and>
     clone_inv st0 G p s \<and> deps_cloned st0 G s []"

text \<open>The invariant of the second traversal: the map no longer changes.\<close>

definition copy_inv ::
  "store \<Rightarrow> ref set \<Rightarrow> (ref \<Rightarrow> bool) \<Rightarrow> ref \<Rightarrow> (string \<rightharpoonup> ref) \<Rightarrow>
   ref list list \<Rightarrow> string set \<Rightarrow> clone_state \<Rightarrow> bool" where
  "copy_inv st0 G p root m1 q vis s \<longleftrightarrow>
     (\<exists>ys. bfs_inv (\<lambda>n. dependents (heap st0 n)) (\<lambda>r. node_id (heap st0 r)) root G q vis ys) \<and>
     clone_inv st0 G p s \<and> snd s = m1"

text \<open>
  The second traversal in detail. After the first traversal no clone has an edge
  (\<open>unwired\<close>). \<open>clone_of st0 m a\<close> is the object the map \<open>m\<close> holds for the id of \<open>a\<close>.
  With the original nodes in \<open>D\<close> done (\<open>wired\<close>), the clone of a done node lists the clones
  of that node's dependencies, in the same order, the clone of any other node lists no
  dependency, and the dependents of a clone are the clones of the done nodes that depend on
  its original. The invariant of the second traversal takes for \<open>D\<close> the nodes yielded so
  far.
\<close>

definition unwired :: "clone_state \<Rightarrow> bool" where
  "unwired s \<longleftrightarrow>
     (\<forall>i c. snd s i = Some c \<longrightarrow>
        c < next_ref (fst s) \<and>
        dependencies (heap (fst s) c) = [] \<and> dependents (heap (fst s) c) = [])"

definition clone_of :: "store \<Rightarrow> (string \<rightharpoonup> ref) \<Rightarrow> ref \<Rightarrow> ref" where
  "clone_of st0 m a = the (m (node_id (heap st0 a)))"

definition wired :: "store \<Rightarrow> ref set \<Rightarrow> ref set \<Rightarrow> clone_state \<Rightarrow> bool" where
  "wired st0 G D s \<longleftrightarrow>
     (\<forall>a\<in>G. node_id (heap st0 a) \<in> dom (snd s) \<longrightarrow>
        dependencies (heap (fst s) (clone_of st0 (snd s) a)) =
          (if a \<in> D then map (clone_of st0 (snd s)) (dependencies (heap st0 a)) else []) \<and>
        set (dependents (heap (fst s) (clone_of st0 (snd s) a))) =
          clone_of st0 (snd s) ` {b \<in> D. node_id (heap st0 b) \<in> dom (snd s) \<and>
                                    a \<in> set (dependencies (heap st0 b))})"

definition wiring_inv ::
  "store \<Rightarrow> ref set \<Rightarrow> (ref \<Rightarrow> bool) \<Rightarrow> ref \<Rightarrow> (string \<rightharpoonup> ref) \<Rightarrow>
   ref list list \<Rightarrow> string set \<Rightarrow> clone_state \<Rightarrow> bool" where
  "wiring_inv st0 G p root m1 q vis s \<longleftrightarrow>
     (\<exists>ys. bfs_inv (\<lambda>n. dependents (heap st0 n)) (\<lambda>r. node_id (heap st0 r)) root G q vis ys \<and>
           wired st0 G (fst ` set ys) s) \<and>
     clone_inv st0 G p s \<and> snd s = m1"

text \<open>
  The nodes C4 speaks of: every node on a dependency chain of a node of the graph that
  the predicate accepts (the accepted node itself, and its chain back to the root).
\<close>

definition kept :: "store \<Rightarrow> ref set \<Rightarrow> (ref \<Rightarrow> bool) \<Rightarrow> ref set" where
  "kept st G p = {a. \<exists>n\<in>G. p n \<and> (n, a) \<in> (depends_on (heap st))\<^sup>*}"

text \<open>
  The example of C4: \<open>R\<close>, \<open>B\<close>, \<open>C\<close>, \<open>D\<close> at the references 0 to 3; \<open>B\<close> and \<open>C\<close>
  depend on \<open>R\<close>, and \<open>D\<close> depends on \<open>B\<close> and on \<open>C\<close>.
\<close>

definition rbcd_nodes :: heap where
  "rbcd_nodes = (\<lambda>_. new_BaseNode [])
     (0 := new_BaseNode ''R'', 1 := new_BaseNode ''B'',
      2 := new_BaseNode ''C'', 3 := new_BaseNode ''D'')"

definition rbcd_heap :: heap where
  "rbcd_heap = add_edge 3 2 (add_edge 3 1 (add_edge 2 0 (add_edge 1 0 rbcd_nodes)))"

definition rbcd_store :: store where
  "rbcd_store = \<lparr>heap = rbcd_heap, next_ref = 4\<rparr>"

text \<open>Id, dependencies and dependents of the listed objects, for stating results.\<close>

definition snapshot :: "store \<Rightarrow> ref list \<Rightarrow> (string \<times> ref list \<times> ref list) list" where
  "snapshot st rs =
     map (\<lambda>r. (node_id (heap st r), dependencies (heap st r), dependents (heap st r))) rs"

section \<open>Edge management: properties\<close>

text \<open>
  C5. A node never becomes its own dependency: \<^verbatim>\<open>n.addDependency(n)\<close> throws the
  self-dependency error for every node and every store, and the store it leaves behind
  is the store it started from, so no list of any node has changed.
\<close>

theorem addDependency_self_fails:
  "addDependency h n n = (Some SelfDependencyError, h)"
  by (simp add: addDependency_def)


text \<open>
  C6. Adding the same dependency again changes nothing: for distinct nodes \<open>a\<close> and
  \<open>x\<close> and any store, the first \<^verbatim>\<open>a.addDependency(x)\<close> returns normally and the second
  returns normally with the store the first one left. When the edge was absent on both
  sides before, \<open>x\<close> is afterwards listed exactly once by \<open>a\<close> and \<open>a\<close> exactly once by
  \<open>x\<close>. Removing a dependency that is not listed leaves the store as it was.
\<close>

theorem addDependency_idempotent:
  assumes "a \<noteq> x"
  shows "fst (addDependency h a x) = None \<and>
         addDependency (snd (addDependency h a x)) a x = (None, snd (addDependency h a x)) \<and>
         (x \<notin> set (dependencies (h a)) \<and> a \<notin> set (dependents (h x)) \<longrightarrow>
            count_list (dependencies (snd (addDependency h a x) a)) x = 1 \<and>
            count_list (dependents (snd (addDependency h a x) x)) a = 1) \<and>
         (x \<notin> set (dependencies (h a)) \<longrightarrow> removeDependency h a x = h)"
  using assms
  by (auto simp: addDependency_def removeDependency_def Let_def count_list_0_iff)

theorem addDependency_idempotent_witness:
  "fst (addDependency abcd_nodes 0 1) = None \<and>
   addDependency (snd (addDependency abcd_nodes 0 1)) 0 1
     = (None, snd (addDependency abcd_nodes 0 1)) \<and>
   count_list (dependencies (snd (addDependency abcd_nodes 0 1) 0)) 1 = 1 \<and>
   count_list (dependents (snd (addDependency abcd_nodes 0 1) 1)) 0 = 1 \<and>
   removeDependency abcd_nodes 0 1 = abcd_nodes"
proof -
  have ne: "(0::ref) \<noteq> 1" by simp
  have absent: "(1::ref) \<notin> set (dependencies (abcd_nodes 0)) \<and>
                (0::ref) \<notin> set (dependents (abcd_nodes 1))"
    by (simp add: abcd_nodes_def new_BaseNode_def)
  from addDependency_idempotent [OF ne, of abcd_nodes] absent show ?thesis
    by blast
qed

subsection \<open>The symmetry of the edge lists\<close>

lemma indexOf_nonneg: "x \<in> set xs \<Longrightarrow> 0 \<le> indexOf xs x"
  by (induction xs) (auto simp: Let_def)

lemma indexOf_less_length: "indexOf xs x < int (length xs)"
  by (induction xs) (auto simp: Let_def)

text \<open>Where the element occurs, the two calls together remove its first occurrence.\<close>

lemma splice1_indexOf: "x \<in> set xs \<Longrightarrow> splice1 xs (indexOf xs x) = remove1 x xs"
proof (induction xs)
  case Nil
  then show ?case by simp
next
  case (Cons y ys)
  show ?case
  proof (cases "y = x")
    case True
    then show ?thesis by (simp add: splice1_def)
  next
    case False
    with Cons.prems have mem: "x \<in> set ys" by simp
    have nn: "0 \<le> indexOf ys x" by (rule indexOf_nonneg [OF mem])
    have lt: "indexOf ys x < int (length ys)" by (rule indexOf_less_length)
    have suc: "nat (indexOf ys x + 1) = Suc (nat (indexOf ys x))" using nn by simp
    from Cons.IH [OF mem] nn lt
    have "take (nat (indexOf ys x)) ys @ drop (Suc (nat (indexOf ys x))) ys = remove1 x ys"
      by (simp add: splice1_def Let_def min_def)
    with False nn lt suc show ?thesis
      by (simp add: splice1_def Let_def min_def)
  qed
qed

lemma addDependency_symmetry:
  "edge_symmetry h \<Longrightarrow> edge_symmetry (snd (addDependency h this n))"
  unfolding edge_symmetry_def addDependency_def Let_def by auto

lemma addDependency_no_duplicates:
  "edge_symmetry h \<Longrightarrow> no_duplicate_edges h \<Longrightarrow>
   no_duplicate_edges (snd (addDependency h this n))"
  unfolding edge_symmetry_def no_duplicate_edges_def addDependency_def Let_def by auto

lemma removeDependency_remove1:
  assumes "edge_symmetry h" "n \<in> set (dependencies (h this))"
  shows "removeDependency h this n =
    (let h1 = h(n := (h n)\<lparr>dependents := remove1 this (dependents (h n))\<rparr>)
     in h1(this := (h1 this)\<lparr>dependencies := remove1 n (dependencies (h1 this))\<rparr>))"
proof -
  from assms have a: "this \<in> set (dependents (h n))"
    by (auto simp: edge_symmetry_def)
  have b: "n \<in> set (dependencies
             ((h(n := (h n)\<lparr>dependents := remove1 this (dependents (h n))\<rparr>)) this))"
    using assms(2) by auto
  show ?thesis
    unfolding removeDependency_def Let_def
    using assms(2) a b by (simp add: splice1_indexOf)
qed

lemma removeDependency_symmetry:
  assumes "edge_symmetry h" "no_duplicate_edges h"
  shows "edge_symmetry (removeDependency h this n)"
proof (cases "n \<in> set (dependencies (h this))")
  case False
  then show ?thesis using assms by (simp add: removeDependency_def)
next
  case True
  show ?thesis
    unfolding removeDependency_remove1 [OF assms(1) True] Let_def
    using assms True unfolding edge_symmetry_def no_duplicate_edges_def
    by auto
qed

lemma removeDependency_no_duplicates:
  assumes "edge_symmetry h" "no_duplicate_edges h"
  shows "no_duplicate_edges (removeDependency h this n)"
proof (cases "n \<in> set (dependencies (h this))")
  case False
  then show ?thesis using assms by (simp add: removeDependency_def)
next
  case True
  show ?thesis
    unfolding removeDependency_remove1 [OF assms(1) True] Let_def
    using assms True unfolding edge_symmetry_def no_duplicate_edges_def
    by auto
qed

lemma removeDependency_fold:
  "edge_symmetry h \<and> no_duplicate_edges h \<Longrightarrow>
   edge_symmetry (foldl (\<lambda>h' n. removeDependency h' this n) h ns) \<and>
   no_duplicate_edges (foldl (\<lambda>h' n. removeDependency h' this n) h ns)"
  by (induction ns arbitrary: h)
     (simp_all add: removeDependency_symmetry removeDependency_no_duplicates)

lemma unconnected_symmetry: "edge_symmetry abcd_nodes \<and> no_duplicate_edges abcd_nodes"
  by (simp add: edge_symmetry_def no_duplicate_edges_def abcd_nodes_def new_BaseNode_def)

lemma add_edge_invariant:
  "edge_symmetry h \<and> no_duplicate_edges h \<Longrightarrow>
   edge_symmetry (add_edge a b h) \<and> no_duplicate_edges (add_edge a b h)"
  by (simp add: add_edge_def addDependency_symmetry addDependency_no_duplicates)

text \<open>
  Every state the class can build has symmetric edge lists without duplicates.
\<close>

lemma built_symmetry: "built h \<Longrightarrow> edge_symmetry h \<and> no_duplicate_edges h"
proof (induction rule: built.induct)
  case (fresh h)
  then show ?case by (simp add: edge_symmetry_def no_duplicate_edges_def)
next
  case (created h r i)
  then have inv: "edge_symmetry h" "no_duplicate_edges h"
    and empty: "dependencies (h r) = []" "dependents (h r) = []" by simp_all
  have "edge_symmetry (h(r := new_BaseNode i))"
    unfolding edge_symmetry_def
  proof (intro allI)
    fix a b
    from inv(1) have "a \<in> set (dependencies (h b)) \<longleftrightarrow> b \<in> set (dependents (h a))"
      by (simp add: edge_symmetry_def)
    with empty show "a \<in> set (dependencies ((h(r := new_BaseNode i)) b)) \<longleftrightarrow>
        b \<in> set (dependents ((h(r := new_BaseNode i)) a))"
      by (cases "a = r"; cases "b = r") (auto simp: new_BaseNode_def)
  qed
  moreover from inv(2) have "no_duplicate_edges (h(r := new_BaseNode i))"
    by (simp add: no_duplicate_edges_def new_BaseNode_def)
  ultimately show ?case by (rule conjI)
next
  case (flagged h r v)
  then show ?case by (simp add: edge_symmetry_def no_duplicate_edges_def)
next
  case (added h a b)
  then show ?case by (simp add: addDependency_symmetry addDependency_no_duplicates)
next
  case (removed h a b)
  then show ?case by (simp add: removeDependency_symmetry removeDependency_no_duplicates)
next
  case (removed_all h a)
  then have "edge_symmetry h \<and> no_duplicate_edges h" by simp
  then show ?case
    unfolding removeAllDependencies_def by (rule removeDependency_fold)
qed

text \<open>
  One step: from every state in which the edge lists are symmetric and no list holds the
  same node twice, each edge operation (\<^verbatim>\<open>addDependency\<close>, also when it throws,
  \<^verbatim>\<open>addDependent\<close>, \<^verbatim>\<open>removeDependency\<close>, \<^verbatim>\<open>removeDependent\<close>,
  \<^verbatim>\<open>removeAllDependencies\<close>) leads to a state in which the lists are again symmetric
  and again free of duplicates.
\<close>

lemma edge_operations_keep_symmetry:
  assumes "edge_symmetry h" and "no_duplicate_edges h"
  shows "(edge_symmetry (snd (addDependency h a b)) \<and>
          no_duplicate_edges (snd (addDependency h a b))) \<and>
         (edge_symmetry (snd (addDependent h a b)) \<and>
          no_duplicate_edges (snd (addDependent h a b))) \<and>
         (edge_symmetry (removeDependency h a b) \<and>
          no_duplicate_edges (removeDependency h a b)) \<and>
         (edge_symmetry (removeDependent h a b) \<and>
          no_duplicate_edges (removeDependent h a b)) \<and>
         (edge_symmetry (removeAllDependencies h a) \<and>
          no_duplicate_edges (removeAllDependencies h a))"
  using assms removeDependency_fold [of h a "dependencies (h a)"]
  by (simp add: addDependent_def removeDependent_def removeAllDependencies_def
      addDependency_symmetry addDependency_no_duplicates
      removeDependency_symmetry removeDependency_no_duplicates)

text \<open>
  The absence of duplicates is what a removal relies on, since it takes out one entry on
  each side. \<open>dup_heap\<close>, in which \<open>x\<close> lists its dependent \<open>a\<close> twice, is symmetric, and
  \<^verbatim>\<open>a.removeDependency(x)\<close> would leave \<open>a\<close> a dependent of \<open>x\<close> without \<open>x\<close> being a
  dependency of \<open>a\<close>; but no sequence of calls builds this state.
\<close>

lemma duplicate_entry_not_built:
  "edge_symmetry dup_heap \<and> \<not> edge_symmetry (removeDependency dup_heap 0 1) \<and>
   \<not> built dup_heap"
proof (intro conjI)
  show "edge_symmetry dup_heap"
    by (auto simp: edge_symmetry_def dup_heap_def new_BaseNode_def split: if_splits)
  have "(0::ref) \<in> set (dependents (removeDependency dup_heap 0 1 1))"
    by (simp add: removeDependency_def dup_heap_def splice1_def Let_def)
  moreover have "(1::ref) \<notin> set (dependencies (removeDependency dup_heap 0 1 0))"
    by (simp add: removeDependency_def dup_heap_def splice1_def Let_def)
  ultimately show "\<not> edge_symmetry (removeDependency dup_heap 0 1)"
    unfolding edge_symmetry_def by blast
  have "\<not> distinct (dependents (dup_heap 1))" by (simp add: dup_heap_def)
  then have "\<not> no_duplicate_edges dup_heap" unfolding no_duplicate_edges_def by blast
  with built_symmetry show "\<not> built dup_heap" by blast
qed

text \<open>
  C1. In every state the class can build, each node is among the dependencies of another
  exactly when that other is among its dependents, and this still holds after each of the
  five edge operations, on any nodes (\<^verbatim>\<open>addDependency\<close> also when it throws). Every
  such result is a state the class can build, so the invariant holds along every sequence
  of calls.
\<close>

theorem edge_symmetry_invariant:
  assumes "built h"
  shows "edge_symmetry h \<and>
         edge_symmetry (snd (addDependency h a b)) \<and>
         edge_symmetry (snd (addDependent h a b)) \<and>
         edge_symmetry (removeDependency h a b) \<and>
         edge_symmetry (removeDependent h a b) \<and>
         edge_symmetry (removeAllDependencies h a) \<and>
         built (snd (addDependency h a b)) \<and>
         built (snd (addDependent h a b)) \<and>
         built (removeDependency h a b) \<and>
         built (removeDependent h a b) \<and>
         built (removeAllDependencies h a)"
proof -
  from built_symmetry [OF assms] have inv: "edge_symmetry h" "no_duplicate_edges h"
    by simp_all
  from edge_operations_keep_symmetry [OF inv, of a b]
  have "edge_symmetry (snd (addDependency h a b))"
    "edge_symmetry (snd (addDependent h a b))"
    "edge_symmetry (removeDependency h a b)"
    "edge_symmetry (removeDependent h a b)"
    "edge_symmetry (removeAllDependencies h a)" by simp_all
  moreover from assms have "built (snd (addDependency h a b))" by (rule built.added)
  moreover from assms have "built (snd (addDependent h a b))"
    unfolding addDependent_def by (rule built.added)
  moreover from assms have "built (removeDependency h a b)" by (rule built.removed)
  moreover from assms have "built (removeDependent h a b)"
    unfolding removeDependent_def by (rule built.removed)
  moreover from assms have "built (removeAllDependencies h a)" by (rule built.removed_all)
  ultimately show ?thesis using inv(1) by simp
qed

lemma chain_built: "built chain_heap"
proof -
  have "built abcd_nodes"
    by (rule built.fresh) (simp add: abcd_nodes_def new_BaseNode_def)
  then have "built (add_edge 0 1 abcd_nodes)" unfolding add_edge_def by (rule built.added)
  then show ?thesis unfolding chain_heap_def add_edge_def by (rule built.added)
qed

theorem edge_symmetry_invariant_witness:
  "edge_symmetry chain_heap \<and>
   edge_symmetry (snd (addDependency chain_heap 2 0)) \<and>
   edge_symmetry (snd (addDependent chain_heap 2 0)) \<and>
   edge_symmetry (removeDependency chain_heap 2 0) \<and>
   edge_symmetry (removeDependent chain_heap 2 0) \<and>
   edge_symmetry (removeAllDependencies chain_heap 2) \<and>
   edge_symmetry (removeDependency chain_heap 0 1) \<and>
   edge_symmetry (removeAllDependencies chain_heap 1)"
proof -
  from edge_symmetry_invariant [OF chain_built, of 2 0]
    edge_symmetry_invariant [OF chain_built, of 0 1]
    edge_symmetry_invariant [OF chain_built, of 1 0]
  show ?thesis by simp
qed

section \<open>Cycle detection: examples\<close>

lemma tangle_edges:
  "dependencies (tangle_heap 0) = [1, 2]" "dependencies (tangle_heap (Suc 0)) = [2]"
  "dependencies (tangle_heap 2) = [1]"
  "dependents (tangle_heap 0) = []" "dependents (tangle_heap (Suc 0)) = [0, 2]"
  "dependents (tangle_heap 2) = [0, 1]"
  by (simp_all add: tangle_heap_def add_edge_def addDependency_def abcd_nodes_def new_BaseNode_def)

text \<open>
  The three examples of C3 evaluate as the claim says: the cycle \<open>A\<close>, \<open>B\<close>, \<open>C\<close> is
  found along the dependencies, the chain without the back edge has none, and the
  diamond has none in any direction.
\<close>

lemma hasCycle_examples:
  "hasCycle cycle_heap 0 Dependencies = Some True \<and>
   hasCycle chain_heap 0 Dependencies = Some False \<and>
   hasCycle diamond_heap 0 Dependencies = Some False \<and>
   hasCycle diamond_heap 0 Dependents = Some False \<and>
   hasCycle diamond_heap 0 Both = Some False"
  by (simp add: hasCycle_def hasCycle_loop.simps backtrack_def cycle_heap_def chain_heap_def
      diamond_heap_def add_edge_def addDependency_def abcd_nodes_def new_BaseNode_def)

text \<open>
  C3, the general part. In \<open>tangle_heap\<close> node \<open>A\<close> depends on \<open>B\<close> and \<open>C\<close>, which
  depend on each other, so a cycle is reachable from \<open>A\<close> along the dependencies.
  \<^verbatim>\<open>hasCycle(A, 'dependencies')\<close> and \<^verbatim>\<open>hasCycle(A)\<close> return false all the same: when
  \<open>C\<close> is explored, \<open>B\<close> is still on the stack and is not pushed again, so \<open>B\<close> is
  later explored as a child of \<open>A\<close> and the edge back to \<open>C\<close> meets a visited node
  that is no longer on the path. Started at \<open>B\<close> the same cycle is found.
\<close>

theorem hasCycle_misses_reachable_cycle:
  "hasCycle tangle_heap 0 Dependencies = Some False \<and>
   hasCycle tangle_heap 0 Both = Some False \<and>
   (0, 1) \<in> (depends_on tangle_heap)\<^sup>+ \<and>
   (1, 1) \<in> (depends_on tangle_heap)\<^sup>+ \<and>
   hasCycle tangle_heap 1 Dependencies = Some True"
proof -
  have a: "hasCycle tangle_heap 0 Dependencies = Some False"
    by (simp add: hasCycle_def hasCycle_loop.simps backtrack_def tangle_edges)
  have b: "hasCycle tangle_heap 0 Both = Some False"
    by (simp add: hasCycle_def hasCycle_loop.simps backtrack_def tangle_edges)
  have e01: "(0, 1) \<in> depends_on tangle_heap" and e12: "(1, 2) \<in> depends_on tangle_heap"
    and e21: "(2, 1) \<in> depends_on tangle_heap"
    by (simp_all add: depends_on_def tangle_edges)
  have c: "(0, 1) \<in> (depends_on tangle_heap)\<^sup>+" using e01 by (rule r_into_trancl)
  have d: "(1, 1) \<in> (depends_on tangle_heap)\<^sup>+"
    using e12 e21 by (rule trancl_into_trancl [OF r_into_trancl])
  have e: "hasCycle tangle_heap 1 Dependencies = Some True"
    by (simp add: hasCycle_def hasCycle_loop.simps backtrack_def tangle_edges)
  from a b c d e show ?thesis by simp
qed

section \<open>Root resolution\<close>

text \<open>
  In a finite graph closed under dependencies and without a dependency cycle the loop
  of \<^verbatim>\<open>getRootNode\<close> ends, at a node of the graph that has no dependencies.
\<close>

lemma getRootNode_total:
  assumes fin: "finite G"
    and closed: "\<forall>a\<in>G. set (dependencies (h a)) \<subseteq> G"
    and acyc: "acyclic (Restr (depends_on h) G)"
  shows "a \<in> G \<Longrightarrow> \<exists>x. getRootNode h a = Some x \<and> x \<in> G \<and> dependencies (h x) = []"
proof -
  have "finite (Restr (depends_on h) G)" using fin by simp
  then have wf: "wf ((Restr (depends_on h) G)\<inverse>)"
    using acyc by (rule finite_acyclic_wf_converse)
  show "a \<in> G \<Longrightarrow> \<exists>x. getRootNode h a = Some x \<and> x \<in> G \<and> dependencies (h x) = []"
    using wf
  proof (induction a rule: wf_induct_rule)
    case (less a)
    show ?case
    proof (cases "dependencies (h a)")
      case Nil
      with less.prems show ?thesis by (subst getRootNode.simps) simp
    next
      case (Cons d ds)
      with closed less.prems have dG: "d \<in> G" by auto
      with Cons less.prems have "(d, a) \<in> (Restr (depends_on h) G)\<inverse>"
        by (simp add: depends_on_def)
      from less.IH [OF this dG] obtain x where
        "getRootNode h d = Some x \<and> x \<in> G \<and> dependencies (h x) = []" by blast
      with Cons show ?thesis by (subst getRootNode.simps) simp
    qed
  qed
qed

text \<open>
  C9, amended. In a finite graph (a set of nodes closed under dependencies) without a
  dependency cycle, in which every node other than \<open>r\<close> eventually depends on \<open>r\<close>,
  \<^verbatim>\<open>getRootNode\<close> returns \<open>r\<close> from every member, hence the same node from any two.
\<close>

theorem getRootNode_single_root:
  assumes "finite G"
    and "\<forall>a\<in>G. set (dependencies (h a)) \<subseteq> G"
    and "acyclic (Restr (depends_on h) G)"
    and "\<forall>a\<in>G. a \<noteq> r \<longrightarrow> (a, r) \<in> (depends_on h)\<^sup>+"
    and "a \<in> G" and "b \<in> G"
  shows "getRootNode h a = Some r \<and> getRootNode h b = Some r"
proof -
  have one: "getRootNode h c = Some r" if c: "c \<in> G" for c
  proof -
    from getRootNode_total [OF assms(1-3) c] obtain x where
      x: "getRootNode h c = Some x" "x \<in> G" "dependencies (h x) = []" by blast
    have "x = r"
    proof (rule ccontr)
      assume "x \<noteq> r"
      with assms(4) x(2) have "(x, r) \<in> (depends_on h)\<^sup>+" by blast
      then obtain z where "(x, z) \<in> depends_on h" by (blast dest: tranclD)
      with x(3) show False by (simp add: depends_on_def)
    qed
    with x(1) show ?thesis by simp
  qed
  from one [OF assms(5)] one [OF assms(6)] show ?thesis by simp
qed

lemma diamond_edges:
  "dependencies (diamond_heap 0) = [1, 2]" "dependencies (diamond_heap (Suc 0)) = [3]"
  "dependencies (diamond_heap 2) = [3]" "dependencies (diamond_heap 3) = []"
  "dependents (diamond_heap 0) = []" "dependents (diamond_heap (Suc 0)) = [0]"
  "dependents (diamond_heap 2) = [0]" "dependents (diamond_heap 3) = [1, 2]"
  by (simp_all add: diamond_heap_def add_edge_def addDependency_def abcd_nodes_def new_BaseNode_def)

theorem getRootNode_single_root_witness:
  "getRootNode diamond_heap 0 = Some 3 \<and> getRootNode diamond_heap 2 = Some 3"
proof -
  let ?G = "{0, 1, 2, 3::ref}"
  have fin: "finite ?G" by simp
  have closed: "\<forall>a\<in>?G. set (dependencies (diamond_heap a)) \<subseteq> ?G"
    by (simp add: diamond_edges)
  have lt: "a < b \<and> b \<le> 3" if "(a, b) \<in> Restr (depends_on diamond_heap) ?G" for a b
    using that by (auto simp: depends_on_def diamond_edges)
  have acyc: "acyclic (Restr (depends_on diamond_heap) ?G)"
  proof (rule acyclicI_order [where f = "\<lambda>n. 3 - n"])
    fix a b assume "(a, b) \<in> Restr (depends_on diamond_heap) ?G"
    from lt [OF this] show "3 - b < 3 - a" by arith
  qed
  have e: "(0, 1) \<in> depends_on diamond_heap" "(1, 3) \<in> depends_on diamond_heap"
    "(2, 3) \<in> depends_on diamond_heap"
    by (simp_all add: depends_on_def diamond_edges)
  have "(0, 3) \<in> (depends_on diamond_heap)\<^sup>+" using e(1) e(2) by (rule trancl_into_trancl [OF r_into_trancl])
  moreover have "(1, 3) \<in> (depends_on diamond_heap)\<^sup>+" using e(2) by (rule r_into_trancl)
  moreover have "(2, 3) \<in> (depends_on diamond_heap)\<^sup>+" using e(3) by (rule r_into_trancl)
  ultimately have reach: "\<forall>a\<in>?G. a \<noteq> 3 \<longrightarrow> (a, 3) \<in> (depends_on diamond_heap)\<^sup>+"
    by simp
  have m0: "(0::ref) \<in> ?G" and m2: "(2::ref) \<in> ?G" by simp_all
  from getRootNode_single_root [OF fin closed acyc reach m0 m2] show ?thesis .
qed

text \<open>
  C9, as the claim states it, fails on a connected graph with two nodes free of
  dependencies: \<open>A\<close> depends on \<open>B\<close> and on \<open>C\<close>, in this order. From \<open>A\<close> the first
  dependency leads to \<open>B\<close>; from \<open>C\<close>, which is connected to \<open>A\<close> by an edge, the
  result is \<open>C\<close> itself, a node with another id.
\<close>

theorem getRootNode_two_roots:
  "getRootNode two_roots_heap 0 = Some 1 \<and> getRootNode two_roots_heap 2 = Some 2 \<and>
   (0, 2) \<in> depends_on two_roots_heap \<and> (2, 0) \<in> depended_by two_roots_heap \<and>
   node_id (two_roots_heap 1) \<noteq> node_id (two_roots_heap 2)"
  by (simp add: getRootNode.simps depends_on_def depended_by_def two_roots_heap_def add_edge_def addDependency_def abcd_nodes_def new_BaseNode_def)



section \<open>Traversal: properties\<close>

lemma enqueue_next_fresh:
  "enqueue_next idf p ns (q, vis) =
     (q @ map (\<lambda>n. n # p) (fresh_next idf vis ns), vis \<union> idf ` set (fresh_next idf vis ns))"
  by (induction ns arbitrary: q vis) auto

lemma fresh_next_subset: "set (fresh_next idf vis ns) \<subseteq> set ns"
  by (induction ns arbitrary: vis) auto

lemma fresh_next_new: "n \<in> set (fresh_next idf vis ns) \<Longrightarrow> idf n \<notin> vis"
  by (induction ns arbitrary: vis) (auto split: if_splits)

lemma fresh_next_distinct: "distinct (map idf (fresh_next idf vis ns))"
  by (induction ns arbitrary: vis) (auto dest: fresh_next_new)

lemma fresh_next_cover: "n \<in> set ns \<Longrightarrow> idf n \<in> vis \<union> idf ` set (fresh_next idf vis ns)"
  by (induction ns arbitrary: vis) (auto split: if_splits)

lemma card_fresh_next: "card (idf ` set (fresh_next idf vis ns)) = length (fresh_next idf vis ns)"
  using distinct_card [OF fresh_next_distinct [of idf vis ns]] by simp

lemma traverse_measure:
  assumes fin: "finite V" and sub: "vis \<union> idf ` set (fresh_next idf vis ns) \<subseteq> V"
  shows "2 * card (V - (vis \<union> idf ` set (fresh_next idf vis ns)))
           + length (fresh_next idf vis ns) \<le> 2 * card (V - vis)"
proof -
  let ?F = "idf ` set (fresh_next idf vis ns)"
  have disj: "?F \<inter> vis = {}" by (auto dest: fresh_next_new)
  have FV: "?F \<subseteq> V - vis" using sub disj by auto
  have "V - (vis \<union> ?F) = (V - vis) - ?F" by auto
  then have "card (V - (vis \<union> ?F)) = card (V - vis) - card ?F"
    using FV fin by (simp add: card_Diff_subset finite_subset)
  moreover have "card ?F \<le> card (V - vis)" using FV fin by (simp add: card_mono)
  ultimately show ?thesis by (simp add: card_fresh_next)
qed

text \<open>
  Total correctness of the traversal loop: with an invariant \<open>I\<close> that bounds the visited ids
  by a finite set and is kept by one round, the loop returns, and what it returns
  satisfies \<open>Q\<close>.
\<close>

lemma traverse_loop_rule:
  assumes fin: "finite V"
    and I0: "I queue visited s"
    and bound: "\<And>q vis s. I q vis s \<Longrightarrow> vis \<subseteq> V"
    and step: "\<And>p q vis s. I (p # q) vis s \<Longrightarrow>
        \<exists>n rest. p = n # rest \<and>
          (\<exists>r. callback n p s = Some r \<and>
            (case r of
               (Some e, s') \<Rightarrow> Q (Some e, s')
             | (None, s') \<Rightarrow>
                 I (q @ map (\<lambda>m. m # p) (fresh_next (idf s') vis (getNextNodes s' n)))
                   (vis \<union> idf s' ` set (fresh_next (idf s') vis (getNextNodes s' n))) s'))"
    and final: "\<And>vis s. I [] vis s \<Longrightarrow> Q (None, s)"
  shows "\<exists>r. traverse_loop idf getNextNodes callback queue visited s = Some r \<and> Q r"
  using I0
proof (induction "2 * card (V - visited) + length queue" arbitrary: queue visited s
       rule: less_induct)
  case less
  show ?case
  proof (cases queue)
    case Nil
    with less.prems final show ?thesis
      by (subst traverse_loop.simps) simp
  next
    case (Cons p q)
    with less.prems have Ip: "I (p # q) visited s" by simp
    from step [OF Ip] obtain n rest r where
      p: "p = n # rest" and cb: "callback n p s = Some r" and
      r: "case r of
            (Some e, s') \<Rightarrow> Q (Some e, s')
          | (None, s') \<Rightarrow>
              I (q @ map (\<lambda>m. m # p) (fresh_next (idf s') visited (getNextNodes s' n)))
                (visited \<union> idf s' ` set (fresh_next (idf s') visited (getNextNodes s' n))) s'"
      by blast
    obtain e s' where rs: "r = (e, s')" by (cases r)
    show ?thesis
    proof (cases e)
      case (Some err)
      with r rs have "Q (Some err, s')" by simp
      with Cons p cb rs Some show ?thesis
        by (subst traverse_loop.simps) simp
    next
      case None
      let ?ns = "fresh_next (idf s') visited (getNextNodes s' n)"
      let ?q = "q @ map (\<lambda>m. m # p) ?ns"
      let ?v = "visited \<union> idf s' ` set ?ns"
      from r rs None have I': "I ?q ?v s'" by simp
      from bound [OF I'] have "?v \<subseteq> V" .
      from traverse_measure [OF fin this]
      have "2 * card (V - ?v) + length ?q < 2 * card (V - visited) + length queue"
        using Cons by simp
      from less.hyps [OF this I'] obtain r' where
        "traverse_loop idf getNextNodes callback ?q ?v s' = Some r' \<and> Q r'" by blast
      with Cons p cb rs None show ?thesis
        by (subst traverse_loop.simps) (simp add: enqueue_next_fresh)
    qed
  qed
qed

lemma bfs_inv_initial: "start \<in> U \<Longrightarrow> bfs_inv g f start U [[start]] {f start} []"
  by (simp add: bfs_inv_def)

lemma bfs_inv_step:
  assumes closed: "\<forall>n\<in>U. set (g n) \<subseteq> U"
    and inv: "bfs_inv g f start U (p # q) vis ys"
  shows "\<exists>n rest. p = n # rest \<and>
           bfs_inv g f start U (q @ map (\<lambda>m. m # p) (fresh_next f vis (g n)))
             (vis \<union> f ` set (fresh_next f vis (g n))) (ys @ [(n, p)])"
proof -
  let ?L = "map snd ys @ p # q"
  from inv have heads: "\<forall>y \<in> set ys. fst y = hd (snd y)"
    and vis: "vis = f ` hd ` set ?L"
    and dist: "distinct (map (\<lambda>p. f (hd p)) ?L)"
    and paths: "\<forall>p \<in> set ?L. is_path g start p \<and> hd p \<in> U"
    and first: "[start] \<in> set ?L"
    and sorted: "sorted (map length ?L)"
    and near: "\<forall>p' \<in> set (p # q). length p' \<le> Suc (length (hd (p # q)))"
    and succs: "inj_on f U \<longrightarrow>
        (\<forall>y \<in> set ys. \<forall>w \<in> set (g (fst y)).
           \<exists>pw \<in> set ?L. hd pw = w \<and> length pw \<le> Suc (length (snd y)))"
    unfolding bfs_inv_def by blast+
  from paths have pp: "is_path g start p" and hU: "hd p \<in> U" by simp_all
  from pp obtain n rest where p: "p = n # rest" by (cases p) auto
  with hU have nU: "n \<in> U" by simp
  let ?ns = "fresh_next f vis (g n)"
  let ?new = "map (\<lambda>m. m # p) ?ns"
  let ?L' = "map snd (ys @ [(n, p)]) @ q @ ?new"
  have L': "?L' = ?L @ ?new" by simp
  have ns_g: "set ?ns \<subseteq> set (g n)" by (rule fresh_next_subset)
  with closed nU have ns_U: "set ?ns \<subseteq> U" by blast
  have hd_new: "hd ` set ?new = set ?ns" by (auto simp: image_iff)
  have all_le: "length x \<le> Suc (length p)" if "x \<in> set ?L" for x
  proof (cases "x \<in> set (map snd ys)")
    case True
    with sorted have "length x \<le> length p"
      by (auto simp: sorted_append)
    then show ?thesis by simp
  next
    case False
    with that have "x \<in> set (p # q)" by auto
    with near show ?thesis by auto
  qed
  have c1: "\<forall>y \<in> set (ys @ [(n, p)]). fst y = hd (snd y)"
    using heads p by auto
  have c2: "vis \<union> f ` set ?ns = f ` hd ` set ?L'"
  proof -
    have "f ` hd ` set ?L' = f ` hd ` set ?L \<union> f ` hd ` set ?new"
      unfolding L' by (simp only: set_append image_Un)
    then show ?thesis by (simp only: vis [symmetric] hd_new)
  qed
  have c3: "distinct (map (\<lambda>p. f (hd p)) ?L')"
  proof -
    have split: "map (\<lambda>p. f (hd p)) ?L' = map (\<lambda>p. f (hd p)) ?L @ map f ?ns"
      unfolding L' by (simp add: comp_def)
    have "set (map (\<lambda>p. f (hd p)) ?L) = vis"
      unfolding vis by (simp only: set_map image_image)
    then have disj: "set (map (\<lambda>p. f (hd p)) ?L) \<inter> set (map f ?ns) = {}"
      by (auto dest: fresh_next_new)
    show ?thesis
      unfolding split distinct_append
      using dist fresh_next_distinct [of f vis "g n"] disj by blast
  qed
  have c4: "\<forall>p' \<in> set ?L'. is_path g start p' \<and> hd p' \<in> U"
  proof
    fix p' assume "p' \<in> set ?L'"
    then consider "p' \<in> set ?L" | m where "m \<in> set ?ns" "p' = m # p"
      unfolding L' by auto
    then show "is_path g start p' \<and> hd p' \<in> U"
    proof cases
      case 1
      with paths show ?thesis by blast
    next
      case 2
      with ns_g ns_U pp p show ?thesis by auto
    qed
  qed
  have c5: "[start] \<in> set ?L'" using first unfolding L' by auto
  have c6: "sorted (map length ?L')"
  proof -
    have split: "map length ?L' = map length ?L @ map length ?new"
      unfolding L' by (simp only: map_append)
    have "map length ?new = replicate (length ?ns) (Suc (length p))"
      by (simp add: map_replicate_const comp_def)
    then have new_sorted: "sorted (map length ?new)" by (simp add: sorted_replicate)
    have cross: "\<forall>x \<in> set (map length ?L). \<forall>y \<in> set (map length ?new). x \<le> y"
      using all_le by auto
    show ?thesis
      unfolding split sorted_append using sorted new_sorted cross by blast
  qed
  have c7: "\<forall>p' \<in> set (q @ ?new). length p' \<le> Suc (length (hd (q @ ?new)))"
  proof (cases q)
    case Nil
    then show ?thesis by (cases ?ns) auto
  next
    case (Cons r q2)
    with sorted have "length p \<le> length r" by (simp add: sorted_append)
    moreover have "\<forall>p' \<in> set q. length p' \<le> Suc (length p)" using all_le by simp
    ultimately show ?thesis using Cons by auto
  qed
  have c8: "\<forall>y \<in> set (ys @ [(n, p)]). \<forall>w \<in> set (g (fst y)).
              \<exists>pw \<in> set ?L'. hd pw = w \<and> length pw \<le> Suc (length (snd y))"
    if inj: "inj_on f U"
  proof (intro ballI)
    fix y w assume y: "y \<in> set (ys @ [(n, p)])" and w: "w \<in> set (g (fst y))"
    show "\<exists>pw \<in> set ?L'. hd pw = w \<and> length pw \<le> Suc (length (snd y))"
    proof (cases "y \<in> set ys")
      case True
      with succs inj w obtain pw where "pw \<in> set ?L" "hd pw = w"
        "length pw \<le> Suc (length (snd y))" by blast
      then show ?thesis unfolding L' by auto
    next
      case False
      with y have yy: "y = (n, p)" by simp
      with w have wg: "w \<in> set (g n)" by simp
      with closed nU have wU: "w \<in> U" by blast
      from fresh_next_cover [OF wg, of f vis]
      consider "f w \<in> vis" | "f w \<in> f ` set ?ns" by blast
      then show ?thesis
      proof cases
        case 1
        then have "f w \<in> f ` hd ` set ?L" by (simp only: vis [symmetric])
        then obtain pw where pw: "pw \<in> set ?L" "f (hd pw) = f w" by force
        with paths have "hd pw \<in> U" by blast
        with inj wU pw(2) have "hd pw = w" by (auto dest: inj_onD)
        moreover have "pw \<in> set ?L'" using pw(1) unfolding L' by auto
        moreover have "length pw \<le> Suc (length (snd y))" using all_le [OF pw(1)] yy by simp
        ultimately show ?thesis by blast
      next
        case 2
        then obtain m where m: "m \<in> set ?ns" "f m = f w" by (auto simp: image_iff)
        with ns_U inj wU have "m = w" by (auto dest: inj_onD)
        with m(1) have "w # p \<in> set ?L'" unfolding L' by auto
        moreover have "hd (w # p) = w \<and> length (w # p) \<le> Suc (length (snd y))"
          using yy by simp
        ultimately show ?thesis by blast
      qed
    qed
  qed
  have "bfs_inv g f start U (q @ ?new) (vis \<union> f ` set ?ns) (ys @ [(n, p)])"
    unfolding bfs_inv_def using c1 c2 c3 c4 c5 c6 c7 c8 by blast
  with p show ?thesis by blast
qed

lemma is_path_reachable: "is_path g start p \<Longrightarrow> (start, hd p) \<in> (expansion_rel g)\<^sup>*"
proof (induction g start p rule: is_path.induct)
  case (3 g start x y r)
  then have "(start, y) \<in> (expansion_rel g)\<^sup>*" and "(y, x) \<in> expansion_rel g"
    by (simp_all add: expansion_rel_def)
  then show ?case by simp
qed simp_all

lemma is_path_traversal_path:
  "is_path g start p \<longleftrightarrow> traversal_path g start (hd p) p"
proof (induction g start p rule: is_path.induct)
  case (1 g start)
  show ?case by (simp add: traversal_path_def)
next
  case (2 g start x)
  show ?case by (auto simp: traversal_path_def)
next
  case (3 g start x y r)
  have "(\<forall>i. Suc i < length (x # y # r) \<longrightarrow> (x # y # r) ! i \<in> set (g ((x # y # r) ! Suc i)))
        \<longleftrightarrow> x \<in> set (g y) \<and>
            (\<forall>i. Suc i < length (y # r) \<longrightarrow> (y # r) ! i \<in> set (g ((y # r) ! Suc i)))"
    (is "?A \<longleftrightarrow> ?B \<and> ?C")
  proof
    assume a: ?A
    from a [rule_format, of 0] have ?B by simp
    moreover have ?C
    proof (intro allI impI)
      fix i assume "Suc i < length (y # r)"
      with a [rule_format, of "Suc i"] show "(y # r) ! i \<in> set (g ((y # r) ! Suc i))" by simp
    qed
    ultimately show "?B \<and> ?C" by simp
  next
    assume bc: "?B \<and> ?C"
    show ?A
    proof (intro allI impI)
      fix i assume i: "Suc i < length (x # y # r)"
      show "(x # y # r) ! i \<in> set (g ((x # y # r) ! Suc i))"
      proof (cases i)
        case 0
        with bc show ?thesis by simp
      next
        case (Suc j)
        with i bc show ?thesis by auto
      qed
    qed
  qed
  with 3 show ?case by (auto simp: traversal_path_def)
qed

lemma traverseGenerator_invariant:
  assumes fin: "finite U" and start: "this \<in> U"
    and closed: "\<forall>n\<in>U. set (expansion h gnn n) \<subseteq> U"
  shows "\<exists>ys vis. traverseGenerator h this gnn = Some ys \<and>
           bfs_inv (expansion h gnn) (\<lambda>r. node_id (h r)) this U [] vis ys"
proof -
  let ?f = "\<lambda>r. node_id (h r)"
  let ?g = "expansion h gnn"
  let ?cb = "\<lambda>n traversalPath ys. Some (None, ys @ [(n, traversalPath)])"
  let ?I = "\<lambda>q vis ys. bfs_inv ?g ?f this U q vis ys"
  let ?Q = "\<lambda>r. fst r = None \<and> (\<exists>vis. bfs_inv ?g ?f this U [] vis (snd r))"
  have "\<exists>r. traverse_loop (\<lambda>_. ?f) (\<lambda>_. ?g) ?cb [[this]] {?f this} [] = Some r \<and> ?Q r"
  proof (rule traverse_loop_rule [where V = "?f ` U" and I = ?I])
    show "finite (?f ` U)" using fin by simp
    show "?I [[this]] {?f this} []" using start by (rule bfs_inv_initial)
  next
    fix q vis ys assume "?I q vis ys"
    then show "vis \<subseteq> ?f ` U" unfolding bfs_inv_def by blast
  next
    fix p q vis ys assume "?I (p # q) vis ys"
    from bfs_inv_step [OF closed this] obtain n rest where
      "p = n # rest" and
      "bfs_inv ?g ?f this U (q @ map (\<lambda>m. m # p) (fresh_next ?f vis (?g n)))
         (vis \<union> ?f ` set (fresh_next ?f vis (?g n))) (ys @ [(n, p)])" by blast
    then show "\<exists>n rest. p = n # rest \<and>
          (\<exists>r. ?cb n p ys = Some r \<and>
            (case r of
               (Some e, s') \<Rightarrow> ?Q (Some e, s')
             | (None, s') \<Rightarrow>
                 ?I (q @ map (\<lambda>m. m # p) (fresh_next ?f vis (?g n)))
                   (vis \<union> ?f ` set (fresh_next ?f vis (?g n))) s'))"
      by simp
  next
    fix vis ys assume "?I [] vis ys"
    then show "?Q (None, ys)" by auto
  qed
  then obtain e ys where "traverse_loop (\<lambda>_. ?f) (\<lambda>_. ?g) ?cb [[this]] {?f this} [] = Some (e, ys)"
    and "?Q (e, ys)" by force
  then show ?thesis by (auto simp: traverseGenerator_def traverse_def)
qed

lemma reachable_is_path:
  "(start, n) \<in> (expansion_rel g)\<^sup>* \<Longrightarrow> \<exists>p. is_path g start p \<and> hd p = n"
proof (induction rule: rtrancl_induct)
  case base
  have "is_path g start [start] \<and> hd [start] = start" by simp
  then show ?case by blast
next
  case (step y z)
  then obtain p where p: "is_path g start p" "hd p = y" by blast
  then obtain r where "p = y # r" by (cases p) auto
  with p step.hyps(2) have "is_path g start (z # p) \<and> hd (z # p) = z"
    by (simp add: expansion_rel_def)
  then show ?case by blast
qed

lemma bfs_inv_heads:
  assumes "bfs_inv g f start U [] vis ys"
  shows "distinct (map (\<lambda>y. f (fst y)) ys)"
    and "fst ` set ys \<subseteq> U"
    and "\<forall>y \<in> set ys. is_path g start (snd y) \<and> fst y = hd (snd y)"
proof -
  from assms have heads: "\<forall>y \<in> set ys. fst y = hd (snd y)"
    and dist: "distinct (map (\<lambda>p. f (hd p)) (map snd ys))"
    and paths: "\<forall>p \<in> set (map snd ys). is_path g start p \<and> hd p \<in> U"
    unfolding bfs_inv_def by simp_all
  have eq: "map (\<lambda>y. f (fst y)) ys = map (\<lambda>p. f (hd p)) (map snd ys)"
    using heads by simp
  show "distinct (map (\<lambda>y. f (fst y)) ys)" unfolding eq by (rule dist)
  show "fst ` set ys \<subseteq> U" using heads paths by auto
  show "\<forall>y \<in> set ys. is_path g start (snd y) \<and> fst y = hd (snd y)"
    using heads paths by auto
qed

lemma bfs_inv_shorter:
  "bfs_inv g f start U [] vis ys \<Longrightarrow> inj_on f U \<Longrightarrow> is_path g start p \<Longrightarrow>
   \<exists>y \<in> set ys. fst y = hd p \<and> length (snd y) \<le> length p"
proof (induction g start p rule: is_path.induct)
  case (1 g start)
  then show ?case by simp
next
  case (2 g start x)
  from "2.prems"(1) have "[start] \<in> set (map snd ys)" unfolding bfs_inv_def by simp
  then obtain y where y: "y \<in> set ys" "snd y = [start]" by auto
  moreover from "2.prems"(1) y(1) have "fst y = hd (snd y)" unfolding bfs_inv_def by blast
  ultimately show ?case using "2.prems"(3) by auto
next
  case (3 g start x y r)
  from "3.prems" have xy: "x \<in> set (g y)" and rest: "is_path g start (y # r)" by simp_all
  from "3.IH" [OF "3.prems"(1,2) rest] obtain u where
    u: "u \<in> set ys" "fst u = y" "length (snd u) \<le> length (y # r)" by auto
  from "3.prems"(1,2) have succs: "\<forall>y \<in> set ys. \<forall>w \<in> set (g (fst y)).
      \<exists>pw \<in> set (map snd ys). hd pw = w \<and> length pw \<le> Suc (length (snd y))"
    and heads: "\<forall>y \<in> set ys. fst y = hd (snd y)"
    unfolding bfs_inv_def by simp_all
  from succs u(1,2) xy obtain pw where
    pw: "pw \<in> set (map snd ys)" "hd pw = x" "length pw \<le> Suc (length (snd u))" by blast
  then obtain v where v: "v \<in> set ys" "snd v = pw" by auto
  with heads pw(2) have "fst v = x" by auto
  with v pw(3) u(3) show ?case by auto
qed

text \<open>
  C10. For every finite set \<open>U\<close> of nodes that contains the start and that the expansion
  function does not leave, cyclic or not, \<^verbatim>\<open>traverseGenerator\<close> ends: it yields a finite
  list, no two yielded nodes have the same id, and the list is no longer than the number
  of ids in \<open>U\<close>.
\<close>

theorem traverseGenerator_terminates:
  assumes "finite U" and "this \<in> U"
    and "\<forall>n\<in>U. set (expansion h getNextNodes n) \<subseteq> U"
  shows "\<exists>ys. traverseGenerator h this getNextNodes = Some ys \<and>
           distinct (map (\<lambda>y. node_id (h (fst y))) ys) \<and>
           length ys \<le> card ((\<lambda>r. node_id (h r)) ` U)"
proof -
  let ?f = "\<lambda>r. node_id (h r)"
  from traverseGenerator_invariant [OF assms] obtain ys vis where
    run: "traverseGenerator h this getNextNodes = Some ys" and
    inv: "bfs_inv (expansion h getNextNodes) ?f this U [] vis ys" by blast
  from bfs_inv_heads(1,2) [OF inv]
  have dist: "distinct (map (\<lambda>y. ?f (fst y)) ys)" and sub: "fst ` set ys \<subseteq> U" .
  have "length ys = card (set (map (\<lambda>y. ?f (fst y)) ys))"
    using distinct_card [OF dist] by simp
  also have "set (map (\<lambda>y. ?f (fst y)) ys) = ?f ` fst ` set ys"
    by (simp add: image_image)
  also have "card (?f ` fst ` set ys) \<le> card (?f ` U)"
    using sub assms(1) by (intro card_mono) auto
  finally show ?thesis using run dist by blast
qed

text \<open>
  C2. For every finite graph \<open>U\<close> (acyclic or not) whose nodes have pairwise distinct ids,
  as the data model and the header of the source file require of nodes ("A node has a
  unique identifier"), and every expansion function that stays in \<open>U\<close>, the
  traversal from a node of \<open>U\<close> returns, no node is yielded twice, and the yielded nodes
  are exactly the nodes reachable from the start through the expansion function.
\<close>

theorem traverseGenerator_visits_reachable_once:
  assumes "finite U" and "this \<in> U"
    and "\<forall>n\<in>U. set (expansion h getNextNodes n) \<subseteq> U"
    and "inj_on (\<lambda>r. node_id (h r)) U"
  shows "\<exists>ys. traverseGenerator h this getNextNodes = Some ys \<and>
           distinct (map fst ys) \<and>
           set (map fst ys) = {n. (this, n) \<in> (expansion_rel (expansion h getNextNodes))\<^sup>*}"
proof -
  let ?f = "\<lambda>r. node_id (h r)"
  let ?g = "expansion h getNextNodes"
  from traverseGenerator_invariant [OF assms(1-3)] obtain ys vis where
    run: "traverseGenerator h this getNextNodes = Some ys" and
    inv: "bfs_inv ?g ?f this U [] vis ys" by blast
  note facts = bfs_inv_heads [OF inv]
  have "map (\<lambda>y. ?f (fst y)) ys = map ?f (map fst ys)" by simp
  with facts(1) have dist: "distinct (map fst ys)"
    by (simp only: distinct_map)
  have "set (map fst ys) = {n. (this, n) \<in> (expansion_rel ?g)\<^sup>*}"
  proof (intro set_eqI iffI)
    fix n assume "n \<in> set (map fst ys)"
    then obtain y where "y \<in> set ys" "fst y = n" by auto
    with facts(3) is_path_reachable [of ?g this "snd y"]
    show "n \<in> {n. (this, n) \<in> (expansion_rel ?g)\<^sup>*}" by auto
  next
    fix n assume "n \<in> {n. (this, n) \<in> (expansion_rel ?g)\<^sup>*}"
    then obtain p where "is_path ?g this p" "hd p = n"
      using reachable_is_path by blast
    with bfs_inv_shorter [OF inv assms(4), of p]
    show "n \<in> set (map fst ys)" by force
  qed
  with run dist show ?thesis by blast
qed

text \<open>
  C7. For every finite graph \<open>U\<close> whose nodes have pairwise distinct ids and every
  expansion function that stays in \<open>U\<close>, the traversal from a node of \<open>U\<close> returns, and
  every yielded pair carries a traversal path: its first element is the yielded node, its
  last element is the start, and each element is a next node of the element after it.
  No traversal path from the yielded node back to the start is shorter.
\<close>

theorem traverseGenerator_shortest_path:
  assumes "finite U" and "this \<in> U"
    and "\<forall>n\<in>U. set (expansion h getNextNodes n) \<subseteq> U"
    and "inj_on (\<lambda>r. node_id (h r)) U"
  shows "\<exists>ys. traverseGenerator h this getNextNodes = Some ys \<and>
           (\<forall>y \<in> set ys.
              traversal_path (expansion h getNextNodes) this (fst y) (snd y) \<and>
              (\<forall>p. traversal_path (expansion h getNextNodes) this (fst y) p \<longrightarrow>
                   length (snd y) \<le> length p))"
proof -
  let ?f = "\<lambda>r. node_id (h r)"
  let ?g = "expansion h getNextNodes"
  from traverseGenerator_invariant [OF assms(1-3)] obtain ys vis where
    run: "traverseGenerator h this getNextNodes = Some ys" and
    inv: "bfs_inv ?g ?f this U [] vis ys" by blast
  note facts = bfs_inv_heads [OF inv]
  have "map (\<lambda>y. ?f (fst y)) ys = map ?f (map fst ys)" by simp
  with facts(1) have "distinct (map fst ys)" by (simp only: distinct_map)
  then have inj_fst: "inj_on fst (set ys)" by (simp add: distinct_map)
  have "traversal_path ?g this (fst y) (snd y) \<and>
        (\<forall>p. traversal_path ?g this (fst y) p \<longrightarrow> length (snd y) \<le> length p)"
    if y: "y \<in> set ys" for y
  proof
    from facts(3) y have "is_path ?g this (snd y)" "fst y = hd (snd y)" by auto
    then show "traversal_path ?g this (fst y) (snd y)"
      by (simp add: is_path_traversal_path)
    show "\<forall>p. traversal_path ?g this (fst y) p \<longrightarrow> length (snd y) \<le> length p"
    proof (intro allI impI)
      fix p assume tp: "traversal_path ?g this (fst y) p"
      then have hd: "hd p = fst y" by (simp add: traversal_path_def)
      with tp have "is_path ?g this p" by (simp add: is_path_traversal_path)
      from bfs_inv_shorter [OF inv assms(4) this] obtain v where
        v: "v \<in> set ys" "fst v = hd p" "length (snd v) \<le> length p" by blast
      with hd inj_fst y have "v = y" by (auto dest: inj_onD)
      with v(3) show "length (snd y) \<le> length p" by simp
    qed
  qed
  with run show ?thesis by blast
qed

lemma diamond_ids:
  "node_id (diamond_heap 0) = ''A''" "node_id (diamond_heap (Suc 0)) = ''B''"
  "node_id (diamond_heap 2) = ''C''" "node_id (diamond_heap 3) = ''D''"
  by (simp_all add: diamond_heap_def add_edge_def addDependency_def abcd_nodes_def new_BaseNode_def)

lemma cycle_edges:
  "dependents (cycle_heap 0) = [2]" "dependents (cycle_heap (Suc 0)) = [0]"
  "dependents (cycle_heap 2) = [1]"
  by (simp_all add: cycle_heap_def chain_heap_def add_edge_def addDependency_def abcd_nodes_def new_BaseNode_def)

theorem traverseGenerator_terminates_witness:
  "\<exists>ys. traverseGenerator cycle_heap 0 None = Some ys \<and>
     distinct (map (\<lambda>y. node_id (cycle_heap (fst y))) ys) \<and>
     length ys \<le> card ((\<lambda>r. node_id (cycle_heap r)) ` {0, 1, 2})"
proof -
  have fin: "finite {0, 1, 2::ref}" by simp
  have mem: "(0::ref) \<in> {0, 1, 2}" by simp
  have closed: "\<forall>n\<in>{0, 1, 2::ref}. set (expansion cycle_heap None n) \<subseteq> {0, 1, 2}"
    by (simp add: expansion_def getDependents_def cycle_edges)
  from traverseGenerator_terminates [OF fin mem closed] show ?thesis .
qed

lemma diamond_closed:
  "\<forall>n\<in>{0, 1, 2, 3::ref}.
     set (expansion diamond_heap (Some (getDependencies diamond_heap)) n) \<subseteq> {0, 1, 2, 3}"
  by (simp add: expansion_def getDependencies_def diamond_edges)

lemma diamond_inj: "inj_on (\<lambda>r. node_id (diamond_heap r)) {0, 1, 2, 3::ref}"
  by (simp add: diamond_ids)

theorem traverseGenerator_visits_reachable_once_witness:
  "\<exists>ys. traverseGenerator diamond_heap 0 (Some (getDependencies diamond_heap)) = Some ys \<and>
     distinct (map fst ys) \<and>
     set (map fst ys) =
       {n. (0, n) \<in> (expansion_rel
                       (expansion diamond_heap (Some (getDependencies diamond_heap))))\<^sup>*}"
proof -
  have fin: "finite {0, 1, 2, 3::ref}" by simp
  have mem: "(0::ref) \<in> {0, 1, 2, 3}" by simp
  from traverseGenerator_visits_reachable_once [OF fin mem diamond_closed diamond_inj]
  show ?thesis .
qed

theorem traverseGenerator_shortest_path_witness:
  "\<exists>ys. traverseGenerator diamond_heap 0 (Some (getDependencies diamond_heap)) = Some ys \<and>
     (\<forall>y \<in> set ys.
        traversal_path (expansion diamond_heap (Some (getDependencies diamond_heap)))
          0 (fst y) (snd y) \<and>
        (\<forall>p. traversal_path (expansion diamond_heap (Some (getDependencies diamond_heap)))
               0 (fst y) p \<longrightarrow> length (snd y) \<le> length p))"
proof -
  have fin: "finite {0, 1, 2, 3::ref}" by simp
  have mem: "(0::ref) \<in> {0, 1, 2, 3}" by simp
  from traverseGenerator_shortest_path [OF fin mem diamond_closed diamond_inj]
  show ?thesis .
qed

text \<open>The run on the diamond, evaluated: \<open>D\<close> is reached through \<open>B\<close> and yielded once.\<close>

lemma traverseGenerator_diamond:
  "traverseGenerator diamond_heap 0 (Some (getDependencies diamond_heap))
     = Some [(0, [0]), (1, [1, 0]), (2, [2, 0]), (3, [3, 1, 0])]"
  by (simp add: traverseGenerator_def traverse_def traverse_loop.simps expansion_def
      getDependencies_def diamond_edges diamond_ids)


section \<open>Cloning: properties\<close>

lemma fresh_next_cong:
  "(\<And>x. x \<in> set ns \<Longrightarrow> f x = f' x) \<Longrightarrow> fresh_next f vis ns = fresh_next f' vis ns"
  by (induction ns arbitrary: vis) auto

lemma clone_inv_id:
  "clone_inv st0 G p s \<Longrightarrow> r < next_ref st0 \<Longrightarrow> state_id s r = node_id (heap st0 r)"
  by (simp add: clone_inv_def state_id_def)

lemma clone_inv_dom: "clone_inv st0 G p s \<Longrightarrow> dom (snd s) \<subseteq> (\<lambda>r. node_id (heap st0 r)) ` G"
proof
  fix i assume inv: "clone_inv st0 G p s" and i: "i \<in> dom (snd s)"
  then obtain a where "a \<in> G" "node_id (heap st0 a) = i"
    unfolding clone_inv_def by blast
  then show "i \<in> (\<lambda>r. node_id (heap st0 r)) ` G" by blast
qed

text \<open>One clone more: the effect of the callback of the walk back up the dependencies.\<close>

lemma set_clone_inv:
  assumes g: "graph_in_store st0 G" and inv: "clone_inv st0 G p s"
    and a: "a \<in> G" and anc: "\<exists>n\<in>G. p n \<and> (n, a) \<in> (depends_on (heap st0))\<^sup>*"
  shows "\<exists>s'. set_clone a pa s = Some (None, s') \<and> clone_inv st0 G p s' \<and>
           dom (snd s') = insert (node_id (heap st0 a)) (dom (snd s))"
proof -
  let ?f = "\<lambda>r. node_id (heap st0 r)"
  let ?c = "next_ref (fst s)"
  let ?node = "(new_BaseNode (node_id (heap (fst s) a)))\<lparr>isMainDocument := isMainDocument (heap (fst s) a)\<rparr>"
  let ?st = "\<lparr>heap = (heap (fst s))(?c := ?node), next_ref = Suc ?c\<rparr>"
  let ?s = "(?st, (snd s)(node_id (heap (fst s) a) \<mapsto> ?c))"
  from g a have alt: "a < next_ref st0" by (simp add: graph_in_store_def)
  from g have inj: "inj_on ?f G" by (simp add: graph_in_store_def)
  from inv have le: "next_ref st0 \<le> ?c"
    and same: "\<forall>r. r < next_ref st0 \<longrightarrow> heap (fst s) r = heap st0 r"
    and rng: "\<forall>i c. snd s i = Some c \<longrightarrow>
        next_ref st0 \<le> c \<and> c < ?c \<and> node_id (heap (fst s) c) = i"
    and flag: "\<forall>a\<in>G. \<forall>c. snd s (?f a) = Some c \<longrightarrow>
        isMainDocument (heap (fst s) c) = isMainDocument (heap st0 a)"
    and anc_all: "\<forall>i\<in>dom (snd s). \<exists>a\<in>G. ?f a = i \<and>
        (\<exists>n\<in>G. p n \<and> (n, a) \<in> (depends_on (heap st0))\<^sup>*)"
    unfolding clone_inv_def by blast+
  from same alt have ha: "heap (fst s) a = heap st0 a" by simp
  have run: "set_clone a pa s = Some (None, ?s)"
    by (simp add: set_clone_def cloneWithoutRelationships_def Let_def)
  have c1: "next_ref st0 \<le> next_ref (fst ?s)" using le by simp
  have c2: "\<forall>r. r < next_ref st0 \<longrightarrow> heap (fst ?s) r = heap st0 r"
    using same le by simp
  have c3: "\<forall>i c. snd ?s i = Some c \<longrightarrow>
        next_ref st0 \<le> c \<and> c < next_ref (fst ?s) \<and> node_id (heap (fst ?s) c) = i"
  proof (intro allI impI)
    fix i c assume ic: "snd ?s i = Some c"
    show "next_ref st0 \<le> c \<and> c < next_ref (fst ?s) \<and> node_id (heap (fst ?s) c) = i"
    proof (cases "i = node_id (heap (fst s) a)")
      case True
      with ic have "c = ?c" by simp
      with True le show ?thesis by (simp add: new_BaseNode_def)
    next
      case False
      with ic have old: "snd s i = Some c" by simp
      with rng have "next_ref st0 \<le> c \<and> c < ?c \<and> node_id (heap (fst s) c) = i" by blast
      then show ?thesis by simp
    qed
  qed
  have c4: "\<forall>b\<in>G. \<forall>c. snd ?s (?f b) = Some c \<longrightarrow>
        isMainDocument (heap (fst ?s) c) = isMainDocument (heap st0 b)"
  proof (intro ballI allI impI)
    fix b c assume b: "b \<in> G" and bc: "snd ?s (?f b) = Some c"
    show "isMainDocument (heap (fst ?s) c) = isMainDocument (heap st0 b)"
    proof (cases "?f b = ?f a")
      case True
      with inj a b have "b = a" by (auto dest: inj_onD)
      moreover from True bc ha have "c = ?c" by simp
      ultimately show ?thesis using ha by (simp add: new_BaseNode_def)
    next
      case False
      with bc ha have old: "snd s (?f b) = Some c" by simp
      with rng have "c < ?c" by blast
      with flag b old show ?thesis by simp
    qed
  qed
  have dom: "dom (snd ?s) = insert (?f a) (dom (snd s))" using ha by simp
  have c5: "\<forall>i\<in>dom (snd ?s). \<exists>a\<in>G. ?f a = i \<and>
        (\<exists>n\<in>G. p n \<and> (n, a) \<in> (depends_on (heap st0))\<^sup>*)"
    unfolding dom using anc_all a anc by blast
  have "clone_inv st0 G p ?s"
    unfolding clone_inv_def using c1 c2 c3 c4 c5 by blast
  with run dom show ?thesis by blast
qed

subsection \<open>The walk back up the dependencies\<close>

lemma inner_inv_step:
  assumes g: "graph_in_store st0 G" and n: "n \<in> G" and pn: "p n"
    and inv: "inner_inv st0 G p n m0 (pa # q) vis s"
  shows "\<exists>a rest s'. pa = a # rest \<and> set_clone a pa s = Some (None, s') \<and>
           inner_inv st0 G p n m0
             (q @ map (\<lambda>d. d # pa) (fresh_next (state_id s') vis (uncloned_dependencies s' a)))
             (vis \<union> state_id s' ` set (fresh_next (state_id s') vis (uncloned_dependencies s' a)))
             s'"
proof -
  let ?f = "\<lambda>r. node_id (heap st0 r)"
  let ?hf = "\<lambda>pa. node_id (heap st0 (hd pa))"
  let ?R = "depends_on (heap st0)"
  from g have lt: "\<forall>x\<in>G. x < next_ref st0"
    and closed: "\<forall>x\<in>G. set (dependencies (heap st0 x)) \<subseteq> G"
    and inj: "inj_on ?f G"
    by (simp_all add: graph_in_store_def)
  from inv have ci: "clone_inv st0 G p s"
    and dc: "deps_cloned st0 G s (pa # q)"
    and heads: "\<forall>pa'\<in>set (pa # q). pa' \<noteq> [] \<and> hd pa' \<in> G \<and> (n, hd pa') \<in> ?R\<^sup>*"
    and vis: "vis \<subseteq> dom (snd s) \<union> ?hf ` set (pa # q)"
    and nvis: "?f n \<in> vis" and m0: "dom m0 \<subseteq> dom (snd s)"
    unfolding inner_inv_def by blast+
  from heads obtain a rest where pa: "pa = a # rest" by (cases pa) auto
  with heads have a: "a \<in> G" and na: "(n, a) \<in> ?R\<^sup>*" by auto
  from n pn na have anc: "\<exists>n\<in>G. p n \<and> (n, a) \<in> ?R\<^sup>*" by blast
  from set_clone_inv [OF g ci a anc, of pa] obtain s' where
    run: "set_clone a pa s = Some (None, s')" and ci': "clone_inv st0 G p s'"
    and dom': "dom (snd s') = insert (?f a) (dom (snd s))" by blast
  have id': "state_id s' x = ?f x" if "x \<in> G" for x
    using clone_inv_id [OF ci'] lt that by blast
  from ci' lt a have ha: "heap (fst s') a = heap st0 a" by (simp add: clone_inv_def)
  let ?ud = "uncloned_dependencies s' a"
  have ud_sub: "set ?ud \<subseteq> set (dependencies (heap st0 a))"
    by (auto simp: uncloned_dependencies_def ha)
  with closed a have ud_G: "set ?ud \<subseteq> G" by blast
  have ud_mem: "d \<in> set ?ud" if "d \<in> set (dependencies (heap st0 a))" "?f d \<notin> dom (snd s')" for d
  proof -
    from that(1) closed a have "d \<in> G" by blast
    with that show ?thesis by (auto simp: uncloned_dependencies_def ha id')
  qed
  let ?news = "fresh_next ?f vis ?ud"
  have news_eq: "fresh_next (state_id s') vis ?ud = ?news"
    by (rule fresh_next_cong) (use ud_G id' in blast)
  have news_sub: "set ?news \<subseteq> set ?ud" by (rule fresh_next_subset)
  with ud_G have news_G: "set ?news \<subseteq> G" by blast
  have img_eq: "state_id s' ` set ?news = ?f ` set ?news"
    by (rule image_cong [OF refl]) (use news_G id' in blast)
  let ?q = "q @ map (\<lambda>d. d # pa) ?news"
  let ?v = "vis \<union> ?f ` set ?news"
  have hq: "?hf ` set ?q = ?hf ` set q \<union> ?f ` set ?news"
    by (simp add: image_Un image_image)
  have old_heads: "?hf ` set (pa # q) \<subseteq> dom (snd s') \<union> ?hf ` set ?q"
    using pa dom' by auto
  have old_dom: "dom (snd s) \<subseteq> dom (snd s')" using dom' by auto
  have vis_old: "vis \<subseteq> dom (snd s') \<union> ?hf ` set ?q"
    using vis old_heads old_dom by blast
  have c2: "deps_cloned st0 G s' ?q"
    unfolding deps_cloned_def
  proof (intro ballI impI)
    fix b d assume b: "b \<in> G" and bdom: "?f b \<in> dom (snd s')"
      and d: "d \<in> set (dependencies (heap st0 b))"
    show "?f d \<in> dom (snd s') \<union> ?hf ` set ?q"
    proof (cases "?f b \<in> dom (snd s)")
      case True
      with dc b d have "?f d \<in> dom (snd s) \<union> ?hf ` set (pa # q)"
        unfolding deps_cloned_def by blast
      with old_heads old_dom show ?thesis by blast
    next
      case False
      with bdom dom' have "?f b = ?f a" by auto
      with inj a b have "b = a" by (auto dest: inj_onD)
      show ?thesis
      proof (cases "?f d \<in> dom (snd s')")
        case True
        then show ?thesis by simp
      next
        case False
        with d \<open>b = a\<close> have "d \<in> set ?ud" by (auto intro: ud_mem)
        from fresh_next_cover [OF this, of ?f vis]
        have "?f d \<in> vis \<union> ?f ` set ?news" .
        with vis_old hq show ?thesis by blast
      qed
    qed
  qed
  have c3: "\<forall>pa'\<in>set ?q. pa' \<noteq> [] \<and> hd pa' \<in> G \<and> (n, hd pa') \<in> ?R\<^sup>*"
  proof
    fix pa' assume "pa' \<in> set ?q"
    then consider "pa' \<in> set q" | d where "d \<in> set ?news" "pa' = d # pa" by auto
    then show "pa' \<noteq> [] \<and> hd pa' \<in> G \<and> (n, hd pa') \<in> ?R\<^sup>*"
    proof cases
      case 1
      with heads show ?thesis by simp
    next
      case 2
      with news_sub ud_sub have "(a, d) \<in> ?R" by (auto simp: depends_on_def)
      with na have "(n, d) \<in> ?R\<^sup>*" by simp
      with 2 news_G show ?thesis by auto
    qed
  qed
  have c4: "?v \<subseteq> dom (snd s') \<union> ?hf ` set ?q" using vis_old hq by blast
  have c5: "?f n \<in> ?v" using nvis by simp
  have c6: "dom m0 \<subseteq> dom (snd s')" using m0 old_dom by blast
  have "inner_inv st0 G p n m0 ?q ?v s'"
    unfolding inner_inv_def using ci' c2 c3 c4 c5 c6 by blast
  then have "inner_inv st0 G p n m0
      (q @ map (\<lambda>d. d # pa) (fresh_next (state_id s') vis ?ud))
      (vis \<union> state_id s' ` set (fresh_next (state_id s') vis ?ud)) s'"
    unfolding news_eq img_eq .
  with pa run show ?thesis by blast
qed

text \<open>
  The walk up from an accepted node returns, and afterwards the node and the whole of its
  dependency closure are cloned.
\<close>

lemma walk_up_total:
  assumes g: "graph_in_store st0 G" and n: "n \<in> G" and pn: "p n"
    and ci: "clone_inv st0 G p s" and dc: "deps_cloned st0 G s []"
  shows "\<exists>s'. traverse state_id n set_clone uncloned_dependencies s = Some (None, s') \<and>
           clone_inv st0 G p s' \<and> deps_cloned st0 G s' [] \<and>
           node_id (heap st0 n) \<in> dom (snd s') \<and> dom (snd s) \<subseteq> dom (snd s')"
proof -
  let ?f = "\<lambda>r. node_id (heap st0 r)"
  let ?I = "inner_inv st0 G p n (snd s)"
  let ?Q = "\<lambda>r. fst r = None \<and> clone_inv st0 G p (snd r) \<and> deps_cloned st0 G (snd r) [] \<and>
             ?f n \<in> dom (snd (snd r)) \<and> dom (snd s) \<subseteq> dom (snd (snd r))"
  from g have fin: "finite G" and lt: "\<forall>x\<in>G. x < next_ref st0"
    by (simp_all add: graph_in_store_def)
  have idn: "state_id s n = ?f n" using clone_inv_id [OF ci] lt n by blast
  have "\<exists>r. traverse_loop state_id uncloned_dependencies set_clone [[n]] {state_id s n} s = Some r
           \<and> ?Q r"
  proof (rule traverse_loop_rule [where V = "?f ` G" and I = ?I])
    show "finite (?f ` G)" using fin by simp
    have i2: "deps_cloned st0 G s [[n]]" using dc by (simp add: deps_cloned_def)
    have i3: "\<forall>pa\<in>set [[n]]. pa \<noteq> [] \<and> hd pa \<in> G \<and> (n, hd pa) \<in> (depends_on (heap st0))\<^sup>*"
      using n by simp
    have i4: "{?f n} \<subseteq> dom (snd s) \<union> (\<lambda>pa. ?f (hd pa)) ` set [[n]]" by simp
    have i5: "?f n \<in> {?f n}" by simp
    have i6: "dom (snd s) \<subseteq> dom (snd s)" by simp
    show "?I [[n]] {state_id s n} s"
      unfolding inner_inv_def idn using ci i2 i3 i4 i5 i6 by blast
  next
    fix q vis s' assume "?I q vis s'"
    then have "vis \<subseteq> dom (snd s') \<union> (\<lambda>pa. ?f (hd pa)) ` set q"
      and "\<forall>pa\<in>set q. hd pa \<in> G" and "clone_inv st0 G p s'"
      unfolding inner_inv_def by blast+
    with clone_inv_dom [of st0 G p s'] show "vis \<subseteq> ?f ` G" by blast
  next
    fix pa q vis s' assume "?I (pa # q) vis s'"
    from inner_inv_step [OF g n pn this] obtain a rest s'' where
      "pa = a # rest" "set_clone a pa s' = Some (None, s'')"
      "?I (q @ map (\<lambda>d. d # pa) (fresh_next (state_id s'') vis (uncloned_dependencies s'' a)))
          (vis \<union> state_id s'' ` set (fresh_next (state_id s'') vis (uncloned_dependencies s'' a)))
          s''" by blast
    then have "pa = a # rest \<and>
          (\<exists>r. set_clone a pa s' = Some r \<and>
            (case r of
               (Some e, s'') \<Rightarrow> ?Q (Some e, s'')
             | (None, s'') \<Rightarrow>
                 ?I (q @ map (\<lambda>m. m # pa)
                       (fresh_next (state_id s'') vis (uncloned_dependencies s'' a)))
                   (vis \<union> state_id s'' `
                      set (fresh_next (state_id s'') vis (uncloned_dependencies s'' a))) s''))"
      by simp
    then show "\<exists>n' rest. pa = n' # rest \<and>
          (\<exists>r. set_clone n' pa s' = Some r \<and>
            (case r of
               (Some e, s'') \<Rightarrow> ?Q (Some e, s'')
             | (None, s'') \<Rightarrow>
                 ?I (q @ map (\<lambda>m. m # pa)
                       (fresh_next (state_id s'') vis (uncloned_dependencies s'' n')))
                   (vis \<union> state_id s'' `
                      set (fresh_next (state_id s'') vis (uncloned_dependencies s'' n'))) s''))"
      by blast
  next
    fix vis s' assume "?I [] vis s'"
    then show "?Q (None, s')" unfolding inner_inv_def by auto
  qed
  then obtain e s' where "traverse_loop state_id uncloned_dependencies set_clone [[n]] {state_id s n} s
      = Some (e, s')" and "?Q (e, s')" by (metis surj_pair)
  then show ?thesis unfolding traverse_def by simp
qed

subsection \<open>The first traversal\<close>

lemma bfs_inv_head: "bfs_inv g f start U (pa # q) vis ys \<Longrightarrow> hd pa \<in> U"
  unfolding bfs_inv_def by simp

text \<open>For the nodes of the graph the closures of a traversal read the original store.\<close>

lemma clone_inv_expansion:
  assumes g: "graph_in_store st0 G" and ci: "clone_inv st0 G p s" and n: "n \<in> G"
  shows "fresh_next (state_id s) vis (getDependents (heap (fst s)) n)
           = fresh_next (\<lambda>r. node_id (heap st0 r)) vis (dependents (heap st0 n))"
    and "state_id s ` set (fresh_next (\<lambda>r. node_id (heap st0 r)) vis (dependents (heap st0 n)))
           = (\<lambda>r. node_id (heap st0 r)) `
               set (fresh_next (\<lambda>r. node_id (heap st0 r)) vis (dependents (heap st0 n)))"
proof -
  let ?f = "\<lambda>r. node_id (heap st0 r)"
  let ?ns = "dependents (heap st0 n)"
  from g have lt: "\<forall>x\<in>G. x < next_ref st0"
    and closed: "\<forall>x\<in>G. set (dependents (heap st0 x)) \<subseteq> G"
    by (simp_all add: graph_in_store_def)
  have id': "state_id s x = ?f x" if "x \<in> G" for x
    using clone_inv_id [OF ci] lt that by blast
  from ci lt n have "heap (fst s) n = heap st0 n" by (simp add: clone_inv_def)
  then have gd: "getDependents (heap (fst s)) n = ?ns" by (simp add: getDependents_def)
  from closed n have nsG: "set ?ns \<subseteq> G" by blast
  show a: "fresh_next (state_id s) vis (getDependents (heap (fst s)) n) = fresh_next ?f vis ?ns"
    unfolding gd by (rule fresh_next_cong) (use nsG id' in blast)
  have "set (fresh_next ?f vis ?ns) \<subseteq> G" using fresh_next_subset [of ?f vis ?ns] nsG by blast
  then show "state_id s ` set (fresh_next ?f vis ?ns) = ?f ` set (fresh_next ?f vis ?ns)"
    by (intro image_cong [OF refl]) (use id' in blast)
qed

lemma include_node_step:
  assumes g: "graph_in_store st0 G" and n: "n \<in> G"
    and ci: "clone_inv st0 G p s" and dc: "deps_cloned st0 G s []"
  shows "\<exists>s'. include_node (Some p) n pa s = Some (None, s') \<and>
           clone_inv st0 G p s' \<and> deps_cloned st0 G s' [] \<and>
           dom (snd s) \<subseteq> dom (snd s') \<and> (p n \<longrightarrow> node_id (heap st0 n) \<in> dom (snd s'))"
proof -
  let ?f = "\<lambda>r. node_id (heap st0 r)"
  from g have lt: "\<forall>x\<in>G. x < next_ref st0" by (simp add: graph_in_store_def)
  have idn: "state_id s n = ?f n" using clone_inv_id [OF ci] lt n by blast
  show ?thesis
  proof (cases "snd s (?f n) = None")
    case False
    then have "?f n \<in> dom (snd s)" by auto
    moreover from False have "include_node (Some p) n pa s = Some (None, s)"
      by (simp add: include_node_def idn)
    ultimately show ?thesis using ci dc by blast
  next
    case None: True
    show ?thesis
    proof (cases "p n")
      case True
      from walk_up_total [OF g n True ci dc] obtain s' where
        "traverse state_id n set_clone uncloned_dependencies s = Some (None, s')"
        "clone_inv st0 G p s'" "deps_cloned st0 G s' []"
        "?f n \<in> dom (snd s')" "dom (snd s) \<subseteq> dom (snd s')" by blast
      moreover from None True have "include_node (Some p) n pa s
          = traverse state_id n set_clone uncloned_dependencies s"
        by (simp add: include_node_def idn)
      ultimately show ?thesis by auto
    next
      case False
      with None have "include_node (Some p) n pa s = Some (None, s)"
        by (simp add: include_node_def idn)
      with False ci dc show ?thesis by auto
    qed
  qed
qed

lemma walk_down_step:
  assumes g: "graph_in_store st0 G"
    and inv: "walk_down_inv st0 G p root (pa # q) vis s"
  shows "\<exists>n rest s'. pa = n # rest \<and> include_node (Some p) n pa s = Some (None, s') \<and>
           walk_down_inv st0 G p root
             (q @ map (\<lambda>m. m # pa)
                    (fresh_next (state_id s') vis (getDependents (heap (fst s')) n)))
             (vis \<union> state_id s' `
                    set (fresh_next (state_id s') vis (getDependents (heap (fst s')) n))) s'"
proof -
  let ?f = "\<lambda>r. node_id (heap st0 r)"
  let ?g = "\<lambda>n. dependents (heap st0 n)"
  from g have closed: "\<forall>x\<in>G. set (?g x) \<subseteq> G" by (simp add: graph_in_store_def)
  from inv obtain ys where binv: "bfs_inv ?g ?f root G (pa # q) vis ys"
    and kept: "\<forall>y\<in>set ys. p (fst y) \<longrightarrow> ?f (fst y) \<in> dom (snd s)"
    and ci: "clone_inv st0 G p s" and dc: "deps_cloned st0 G s []"
    unfolding walk_down_inv_def by blast
  from bfs_inv_step [OF closed binv] obtain n rest where pa: "pa = n # rest"
    and binv': "bfs_inv ?g ?f root G (q @ map (\<lambda>m. m # pa) (fresh_next ?f vis (?g n)))
                  (vis \<union> ?f ` set (fresh_next ?f vis (?g n))) (ys @ [(n, pa)])" by blast
  from bfs_inv_head [OF binv] pa have n: "n \<in> G" by simp
  from include_node_step [OF g n ci dc, of pa] obtain s' where
    run: "include_node (Some p) n pa s = Some (None, s')"
    and ci': "clone_inv st0 G p s'" and dc': "deps_cloned st0 G s' []"
    and mono: "dom (snd s) \<subseteq> dom (snd s')"
    and pn: "p n \<longrightarrow> ?f n \<in> dom (snd s')" by blast
  have kept': "\<forall>y\<in>set (ys @ [(n, pa)]). p (fst y) \<longrightarrow> ?f (fst y) \<in> dom (snd s')"
    using kept mono pn by auto
  have "walk_down_inv st0 G p root (q @ map (\<lambda>m. m # pa) (fresh_next ?f vis (?g n)))
          (vis \<union> ?f ` set (fresh_next ?f vis (?g n))) s'"
    unfolding walk_down_inv_def using binv' kept' ci' dc' by blast
  then have "walk_down_inv st0 G p root
             (q @ map (\<lambda>m. m # pa)
                    (fresh_next (state_id s') vis (getDependents (heap (fst s')) n)))
             (vis \<union> state_id s' `
                    set (fresh_next (state_id s') vis (getDependents (heap (fst s')) n))) s'"
    unfolding clone_inv_expansion [OF g ci' n] .
  with pa run show ?thesis by blast
qed

lemma walk_down_total:
  assumes g: "graph_in_store st0 G" and root: "root \<in> G"
  shows "\<exists>s1. traverse state_id root (include_node (Some p))
                 (\<lambda>s n. getDependents (heap (fst s)) n) (st0, Map.empty) = Some (None, s1) \<and>
           clone_inv st0 G p s1 \<and> deps_cloned st0 G s1 [] \<and>
           (\<forall>n. (root, n) \<in> (depended_by (heap st0))\<^sup>* \<and> p n \<longrightarrow>
                node_id (heap st0 n) \<in> dom (snd s1))"
proof -
  let ?f = "\<lambda>r. node_id (heap st0 r)"
  let ?g = "\<lambda>n. dependents (heap st0 n)"
  let ?s0 = "(st0, Map.empty) :: clone_state"
  let ?I = "walk_down_inv st0 G p root"
  let ?Q = "\<lambda>r. fst r = None \<and> clone_inv st0 G p (snd r) \<and> deps_cloned st0 G (snd r) [] \<and>
             (\<forall>n. (root, n) \<in> (depended_by (heap st0))\<^sup>* \<and> p n \<longrightarrow>
                ?f n \<in> dom (snd (snd r)))"
  from g have fin: "finite G" and inj: "inj_on ?f G" by (simp_all add: graph_in_store_def)
  have rel: "expansion_rel ?g = depended_by (heap st0)"
    by (simp add: expansion_rel_def depended_by_def)
  have ci0: "clone_inv st0 G p ?s0" by (simp add: clone_inv_def)
  have dc0: "deps_cloned st0 G ?s0 []" by (simp add: deps_cloned_def)
  have id0: "state_id ?s0 root = ?f root" by (simp add: state_id_def)
  have "\<exists>r. traverse_loop state_id (\<lambda>s n. getDependents (heap (fst s)) n)
               (include_node (Some p)) [[root]] {state_id ?s0 root} ?s0 = Some r \<and> ?Q r"
  proof (rule traverse_loop_rule [where V = "?f ` G" and I = ?I])
    show "finite (?f ` G)" using fin by simp
    have "bfs_inv ?g ?f root G [[root]] {?f root} []" using root by (rule bfs_inv_initial)
    then show "?I [[root]] {state_id ?s0 root} ?s0"
      unfolding walk_down_inv_def id0 using ci0 dc0 by auto
  next
    fix q vis s assume "?I q vis s"
    then obtain ys where "bfs_inv ?g ?f root G q vis ys"
      unfolding walk_down_inv_def by blast
    then show "vis \<subseteq> ?f ` G" unfolding bfs_inv_def by blast
  next
    fix pa q vis s assume "?I (pa # q) vis s"
    from walk_down_step [OF g this] obtain n rest s' where
      "pa = n # rest \<and>
          (\<exists>r. include_node (Some p) n pa s = Some r \<and>
            (case r of
               (Some e, s') \<Rightarrow> ?Q (Some e, s')
             | (None, s') \<Rightarrow>
                 ?I (q @ map (\<lambda>m. m # pa)
                       (fresh_next (state_id s') vis (getDependents (heap (fst s')) n)))
                   (vis \<union> state_id s' `
                      set (fresh_next (state_id s') vis (getDependents (heap (fst s')) n))) s'))"
      by force
    then show "\<exists>n rest. pa = n # rest \<and>
          (\<exists>r. include_node (Some p) n pa s = Some r \<and>
            (case r of
               (Some e, s') \<Rightarrow> ?Q (Some e, s')
             | (None, s') \<Rightarrow>
                 ?I (q @ map (\<lambda>m. m # pa)
                       (fresh_next (state_id s') vis (getDependents (heap (fst s')) n)))
                   (vis \<union> state_id s' `
                      set (fresh_next (state_id s') vis (getDependents (heap (fst s')) n))) s'))"
      by blast
  next
    fix vis s assume "?I [] vis s"
    then obtain ys where binv: "bfs_inv ?g ?f root G [] vis ys"
      and kept: "\<forall>y\<in>set ys. p (fst y) \<longrightarrow> ?f (fst y) \<in> dom (snd s)"
      and ci: "clone_inv st0 G p s" and dc: "deps_cloned st0 G s []"
      unfolding walk_down_inv_def by blast
    have "?f n \<in> dom (snd s)" if r: "(root, n) \<in> (depended_by (heap st0))\<^sup>*" and pn: "p n" for n
    proof -
      from r obtain pth where "is_path ?g root pth" "hd pth = n"
        using reachable_is_path [of root n ?g] unfolding rel by blast
      with bfs_inv_shorter [OF binv inj, of pth] obtain y where "y \<in> set ys" "fst y = n"
        by blast
      with kept pn show ?thesis by blast
    qed
    with ci dc show "?Q (None, s)" by simp
  qed
  then obtain e s1 where "traverse_loop state_id (\<lambda>s n. getDependents (heap (fst s)) n)
               (include_node (Some p)) [[root]] {state_id ?s0 root} ?s0 = Some (e, s1)"
    and "?Q (e, s1)" by (metis surj_pair)
  then show ?thesis unfolding traverse_def by simp
qed

subsection \<open>The clones before the second traversal\<close>

text \<open>
  A traversal keeps whatever each call of its callback keeps. The callbacks of the first
  traversal create objects without edges and change no edge list, so when the second
  traversal starts no clone has an edge.
\<close>

lemma traverse_loop_preserves:
  assumes run: "traverse_loop idf getNextNodes callback queue visited s = Some r"
    and cb: "\<And>n pa s r. P s \<Longrightarrow> callback n pa s = Some r \<Longrightarrow> P (snd r)"
    and start: "P s"
  shows "P (snd r)"
proof -
  let ?Q = "\<lambda>(idf :: 'a \<Rightarrow> ref \<Rightarrow> string) (gnn :: 'a \<Rightarrow> ref \<Rightarrow> ref list)
              (cb :: ref \<Rightarrow> ref list \<Rightarrow> 'a \<Rightarrow> 'a outcome option)
              (q :: ref list list) (vis :: string set) (s :: 'a) (r :: 'a outcome).
     (\<forall>n pa s r. P s \<longrightarrow> cb n pa s = Some r \<longrightarrow> P (snd r)) \<longrightarrow> P s \<longrightarrow> P (snd r)"
  have "?Q idf getNextNodes callback queue visited s r"
  proof (rule traverse_loop.raw_induct [where P = ?Q])
    show "traverse_loop idf getNextNodes callback queue visited s = Some r" by (rule run)
  next
    fix loop :: "('a \<Rightarrow> ref \<Rightarrow> string) \<Rightarrow> ('a \<Rightarrow> ref \<Rightarrow> ref list) \<Rightarrow>
        (ref \<Rightarrow> ref list \<Rightarrow> 'a \<Rightarrow> 'a outcome option) \<Rightarrow>
        ref list list \<Rightarrow> string set \<Rightarrow> 'a \<Rightarrow> 'a outcome option"
      and idf gnn cb queue visited s r
    assume IH: "\<And>idf gnn cb queue visited s r.
        loop idf gnn cb queue visited s = Some r \<Longrightarrow> ?Q idf gnn cb queue visited s r"
      and body: "(case queue of
        [] \<Rightarrow> Some (None, s)
      | traversalPath # queue' \<Rightarrow>
          (case traversalPath of
             [] \<Rightarrow> Some (Some TypeError, s)
           | n # _ \<Rightarrow>
               (case cb n traversalPath s of
                  None \<Rightarrow> None
                | Some (Some e, s') \<Rightarrow> Some (Some e, s')
                | Some (None, s') \<Rightarrow>
                    (case enqueue_next (idf s') traversalPath (gnn s' n) (queue', visited) of
                       (queue'', visited') \<Rightarrow> loop idf gnn cb queue'' visited' s')))) = Some r"
    show "?Q idf gnn cb queue visited s r"
    proof (intro impI)
      assume keep: "\<forall>n pa s r. P s \<longrightarrow> cb n pa s = Some r \<longrightarrow> P (snd r)" and Ps: "P s"
      show "P (snd r)"
      proof (cases queue)
        case Nil
        with body Ps show ?thesis by auto
      next
        case (Cons pa q)
        note queue = this
        show ?thesis
        proof (cases pa)
          case Nil
          with queue body Ps show ?thesis by auto
        next
          case (Cons n rest)
          note pa = this
          from body queue pa obtain e s' where cbr: "cb n pa s = Some (e, s')"
            by (auto split: option.splits)
          with keep Ps have Ps': "P s'" by fastforce
          show ?thesis
          proof (cases e)
            case (Some err)
            with body queue pa cbr Ps' show ?thesis by auto
          next
            case None
            obtain q' v' where "enqueue_next (idf s') pa (gnn s' n) (q, visited) = (q', v')"
              by (cases "enqueue_next (idf s') pa (gnn s' n) (q, visited)")
            with body queue pa cbr None
            have "loop idf gnn cb q' v' s' = Some r" by simp
            from IH [OF this] keep Ps' show ?thesis by blast
          qed
        qed
      qed
    qed
  qed
  with cb start show ?thesis by blast
qed

lemma set_clone_unwired:
  assumes "unwired s" and "set_clone n pa s = Some r"
  shows "unwired (snd r)"
proof -
  let ?c = "next_ref (fst s)"
  from assms(2) have r: "snd r =
      (\<lparr>heap = (heap (fst s))(?c := (new_BaseNode (node_id (heap (fst s) n)))
                 \<lparr>isMainDocument := isMainDocument (heap (fst s) n)\<rparr>),
        next_ref = Suc ?c\<rparr>,
       (snd s)(node_id (heap (fst s) n) \<mapsto> ?c))"
    by (auto simp: set_clone_def cloneWithoutRelationships_def Let_def)
  show ?thesis
    unfolding unwired_def r
  proof (intro allI impI)
    fix i c
    assume ic: "snd (\<lparr>heap = (heap (fst s))(?c := (new_BaseNode (node_id (heap (fst s) n)))
                 \<lparr>isMainDocument := isMainDocument (heap (fst s) n)\<rparr>),
        next_ref = Suc ?c\<rparr>,
       (snd s)(node_id (heap (fst s) n) \<mapsto> ?c)) i = Some c"
    show "c < next_ref (fst (\<lparr>heap = (heap (fst s))(?c := (new_BaseNode (node_id (heap (fst s) n)))
                 \<lparr>isMainDocument := isMainDocument (heap (fst s) n)\<rparr>),
        next_ref = Suc ?c\<rparr>,
       (snd s)(node_id (heap (fst s) n) \<mapsto> ?c))) \<and>
        dependencies (heap (fst (\<lparr>heap = (heap (fst s))(?c := (new_BaseNode (node_id (heap (fst s) n)))
                 \<lparr>isMainDocument := isMainDocument (heap (fst s) n)\<rparr>),
        next_ref = Suc ?c\<rparr>,
       (snd s)(node_id (heap (fst s) n) \<mapsto> ?c))) c) = [] \<and>
        dependents (heap (fst (\<lparr>heap = (heap (fst s))(?c := (new_BaseNode (node_id (heap (fst s) n)))
                 \<lparr>isMainDocument := isMainDocument (heap (fst s) n)\<rparr>),
        next_ref = Suc ?c\<rparr>,
       (snd s)(node_id (heap (fst s) n) \<mapsto> ?c))) c) = []"
    proof (cases "i = node_id (heap (fst s) n)")
      case True
      with ic have "c = ?c" by simp
      then show ?thesis by (simp add: new_BaseNode_def)
    next
      case False
      with ic have "snd s i = Some c" by simp
      with assms(1) have "c < ?c \<and> dependencies (heap (fst s) c) = [] \<and>
          dependents (heap (fst s) c) = []" unfolding unwired_def by blast
      then show ?thesis by simp
    qed
  qed
qed

lemma include_node_unwired:
  assumes "unwired s" and "include_node predicate n pa s = Some r"
  shows "unwired (snd r)"
proof (cases "snd s (state_id s n) \<noteq> None")
  case True
  with assms show ?thesis by (auto simp: include_node_def)
next
  case False
  show ?thesis
  proof (cases predicate)
    case None
    with False assms(2) have "set_clone n pa s = Some r" by (simp add: include_node_def)
    with assms(1) show ?thesis by (rule set_clone_unwired)
  next
    case (Some p)
    show ?thesis
    proof (cases "p n")
      case True
      with False Some assms(2) have
        "traverse_loop state_id uncloned_dependencies set_clone [[n]] {state_id s n} s = Some r"
        by (simp add: include_node_def traverse_def)
      then show ?thesis
      proof (rule traverse_loop_preserves [where P = unwired])
        show "unwired s" by (rule assms(1))
      qed (rule set_clone_unwired)
    next
      case False
      with \<open>\<not> snd s (state_id s n) \<noteq> None\<close> Some assms show ?thesis
        by (auto simp: include_node_def)
    qed
  qed
qed

lemma walk_down_unwired:
  assumes "traverse state_id root (include_node predicate)
             (\<lambda>s n. getDependents (heap (fst s)) n) (st, Map.empty) = Some r"
  shows "unwired (snd r)"
proof -
  from assms have "traverse_loop state_id (\<lambda>s n. getDependents (heap (fst s)) n)
      (include_node predicate) [[root]] {state_id (st, Map.empty) root} (st, Map.empty) = Some r"
    by (simp add: traverse_def)
  then show ?thesis
  proof (rule traverse_loop_preserves [where P = unwired])
    show "unwired (st, Map.empty)" by (simp add: unwired_def)
  qed (rule include_node_unwired)
qed

subsection \<open>The second traversal\<close>

lemma addDependency_frame:
  assumes "a \<noteq> b"
  shows "\<exists>h'. addDependency h a b = (None, h') \<and>
           (\<forall>r. r \<noteq> a \<longrightarrow> r \<noteq> b \<longrightarrow> h' r = h r) \<and>
           (\<forall>r. node_id (h' r) = node_id (h r) \<and> isMainDocument (h' r) = isMainDocument (h r))"
  using assms by (simp add: addDependency_def Let_def)

lemma copy_dependencies_total:
  assumes "clone_inv st0 G p s" and "snd s i = Some c"
    and "\<forall>d\<in>set ds. d < next_ref st0 \<and> node_id (heap st0 d) \<in> dom (snd s) \<and>
           node_id (heap st0 d) \<noteq> i"
  shows "\<exists>s'. copy_dependencies c ds s = (None, s') \<and> clone_inv st0 G p s' \<and> snd s' = snd s"
  using assms
proof (induction ds arbitrary: s)
  case Nil
  then show ?case by simp
next
  case (Cons d ds)
  let ?f = "\<lambda>r. node_id (heap st0 r)"
  from Cons.prems(3) have dlt: "d < next_ref st0" and ddom: "?f d \<in> dom (snd s)"
    and dne: "?f d \<noteq> i" by simp_all
  from ddom obtain cd where cd: "snd s (?f d) = Some cd" by auto
  have idd: "state_id s d = ?f d" by (rule clone_inv_id [OF Cons.prems(1) dlt])
  from Cons.prems(1) have le: "next_ref st0 \<le> next_ref (fst s)"
    and same: "\<forall>r. r < next_ref st0 \<longrightarrow> heap (fst s) r = heap st0 r"
    and rng: "\<forall>i c. snd s i = Some c \<longrightarrow>
        next_ref st0 \<le> c \<and> c < next_ref (fst s) \<and> node_id (heap (fst s) c) = i"
    and flag: "\<forall>a\<in>G. \<forall>c. snd s (?f a) = Some c \<longrightarrow>
        isMainDocument (heap (fst s) c) = isMainDocument (heap st0 a)"
    and anc: "\<forall>i\<in>dom (snd s). \<exists>a\<in>G. ?f a = i \<and>
        (\<exists>n\<in>G. p n \<and> (n, a) \<in> (depends_on (heap st0))\<^sup>*)"
    unfolding clone_inv_def by blast+
  from rng Cons.prems(2) have c: "next_ref st0 \<le> c" "node_id (heap (fst s) c) = i" by blast+
  from rng cd have cdr: "next_ref st0 \<le> cd" "node_id (heap (fst s) cd) = ?f d" by blast+
  from c(2) cdr(2) dne have "c \<noteq> cd" by auto
  from addDependency_frame [OF this, of "heap (fst s)"] obtain h' where
    add: "addDependency (heap (fst s)) c cd = (None, h')"
    and frame: "\<forall>r. r \<noteq> c \<longrightarrow> r \<noteq> cd \<longrightarrow> h' r = heap (fst s) r"
    and keep: "\<forall>r. node_id (h' r) = node_id (heap (fst s) r) \<and>
                 isMainDocument (h' r) = isMainDocument (heap (fst s) r)" by blast
  let ?s = "((fst s)\<lparr>heap := h'\<rparr>, snd s)"
  have c1: "next_ref st0 \<le> next_ref (fst ?s)" using le by simp
  have c2: "\<forall>r. r < next_ref st0 \<longrightarrow> heap (fst ?s) r = heap st0 r"
    using same frame c(1) cdr(1) by auto
  have c3: "\<forall>i c. snd ?s i = Some c \<longrightarrow>
        next_ref st0 \<le> c \<and> c < next_ref (fst ?s) \<and> node_id (heap (fst ?s) c) = i"
    using rng keep by simp
  have c4: "\<forall>a\<in>G. \<forall>c. snd ?s (?f a) = Some c \<longrightarrow>
        isMainDocument (heap (fst ?s) c) = isMainDocument (heap st0 a)"
    using flag keep by simp
  have c5: "\<forall>i\<in>dom (snd ?s). \<exists>a\<in>G. ?f a = i \<and>
        (\<exists>n\<in>G. p n \<and> (n, a) \<in> (depends_on (heap st0))\<^sup>*)"
    using anc by simp
  have ci: "clone_inv st0 G p ?s"
    unfolding clone_inv_def using c1 c2 c3 c4 c5 by blast
  have "\<exists>s'. copy_dependencies c ds ?s = (None, s') \<and> clone_inv st0 G p s' \<and> snd s' = snd ?s"
    by (rule Cons.IH [OF ci]) (use Cons.prems in auto)
  then obtain s' where "copy_dependencies c ds ?s = (None, s')" "clone_inv st0 G p s'"
    "snd s' = snd s" by auto
  moreover have "copy_dependencies c (d # ds) s = copy_dependencies c ds ?s"
    by (simp add: idd cd add)
  ultimately show ?case by auto
qed

lemma no_self_dependency:
  assumes "acyclic (Restr (depends_on h) G)" and "n \<in> G"
  shows "n \<notin> set (dependencies (h n))"
proof
  assume "n \<in> set (dependencies (h n))"
  with assms(2) have "(n, n) \<in> Restr (depends_on h) G" by (simp add: depends_on_def)
  then have "(n, n) \<in> (Restr (depends_on h) G)\<^sup>+" by (rule r_into_trancl)
  with assms(1) show False by (simp add: acyclic_def)
qed

lemma copy_edges_step:
  assumes g: "graph_in_store st0 G" and n: "n \<in> G"
    and ci: "clone_inv st0 G p s" and dc: "deps_cloned st0 G s []"
  shows "\<exists>s'. copy_edges n pa s = Some (None, s') \<and> clone_inv st0 G p s' \<and> snd s' = snd s"
proof -
  let ?f = "\<lambda>r. node_id (heap st0 r)"
  from g have lt: "\<forall>x\<in>G. x < next_ref st0"
    and closed: "\<forall>x\<in>G. set (dependencies (heap st0 x)) \<subseteq> G"
    and inj: "inj_on ?f G" and acyc: "acyclic (Restr (depends_on (heap st0)) G)"
    by (simp_all add: graph_in_store_def)
  have idn: "state_id s n = ?f n" using clone_inv_id [OF ci] lt n by blast
  from ci lt n have hn: "heap (fst s) n = heap st0 n" by (simp add: clone_inv_def)
  show ?thesis
  proof (cases "snd s (?f n)")
    case None
    then have "copy_edges n pa s = Some (None, s)" by (simp add: copy_edges_def idn)
    with ci show ?thesis by simp
  next
    case (Some c)
    have ds: "\<forall>d\<in>set (dependencies (heap st0 n)).
        d < next_ref st0 \<and> ?f d \<in> dom (snd s) \<and> ?f d \<noteq> ?f n"
    proof
      fix d assume d: "d \<in> set (dependencies (heap st0 n))"
      with closed n have dG: "d \<in> G" by blast
      from no_self_dependency [OF acyc n] d have "d \<noteq> n" by auto
      with inj dG n have "?f d \<noteq> ?f n" by (auto dest: inj_onD)
      moreover from dc n Some d have "?f d \<in> dom (snd s)"
        unfolding deps_cloned_def by auto
      ultimately show "d < next_ref st0 \<and> ?f d \<in> dom (snd s) \<and> ?f d \<noteq> ?f n"
        using lt dG by blast
    qed
    from copy_dependencies_total [OF ci Some ds] obtain s' where
      "copy_dependencies c (dependencies (heap st0 n)) s = (None, s')"
      "clone_inv st0 G p s'" "snd s' = snd s" by blast
    moreover have "copy_edges n pa s
        = Some (copy_dependencies c (dependencies (heap st0 n)) s)"
      using Some by (simp add: copy_edges_def idn hn)
    ultimately show ?thesis by simp
  qed
qed

lemma copy_edges_total:
  assumes g: "graph_in_store st0 G" and root: "root \<in> G"
    and ci: "clone_inv st0 G p s1" and dc: "deps_cloned st0 G s1 []"
  shows "\<exists>s2. traverse state_id root copy_edges
                 (\<lambda>s n. getDependents (heap (fst s)) n) s1 = Some (None, s2) \<and>
           clone_inv st0 G p s2 \<and> snd s2 = snd s1"
proof -
  let ?f = "\<lambda>r. node_id (heap st0 r)"
  let ?g = "\<lambda>n. dependents (heap st0 n)"
  let ?I = "copy_inv st0 G p root (snd s1)"
  let ?Q = "\<lambda>r. fst r = None \<and> clone_inv st0 G p (snd r) \<and> snd (snd r) = snd s1"
  from g have fin: "finite G" and lt: "\<forall>x\<in>G. x < next_ref st0"
    and closed: "\<forall>x\<in>G. set (?g x) \<subseteq> G"
    by (simp_all add: graph_in_store_def)
  have id0: "state_id s1 root = ?f root" using clone_inv_id [OF ci] lt root by blast
  have "\<exists>r. traverse_loop state_id (\<lambda>s n. getDependents (heap (fst s)) n)
               copy_edges [[root]] {state_id s1 root} s1 = Some r \<and> ?Q r"
  proof (rule traverse_loop_rule [where V = "?f ` G" and I = ?I])
    show "finite (?f ` G)" using fin by simp
    have "bfs_inv ?g ?f root G [[root]] {?f root} []" using root by (rule bfs_inv_initial)
    then show "?I [[root]] {state_id s1 root} s1"
      unfolding copy_inv_def id0 using ci by auto
  next
    fix q vis s assume "?I q vis s"
    then obtain ys where "bfs_inv ?g ?f root G q vis ys"
      unfolding copy_inv_def by blast
    then show "vis \<subseteq> ?f ` G" unfolding bfs_inv_def by blast
  next
    fix pa q vis s assume inv: "?I (pa # q) vis s"
    then obtain ys where binv: "bfs_inv ?g ?f root G (pa # q) vis ys"
      and cis: "clone_inv st0 G p s" and ms: "snd s = snd s1"
      unfolding copy_inv_def by blast
    from bfs_inv_step [OF closed binv] obtain n rest where pa: "pa = n # rest"
      and binv': "bfs_inv ?g ?f root G (q @ map (\<lambda>m. m # pa) (fresh_next ?f vis (?g n)))
                  (vis \<union> ?f ` set (fresh_next ?f vis (?g n))) (ys @ [(n, pa)])" by blast
    from bfs_inv_head [OF binv] pa have n: "n \<in> G" by simp
    from dc ms have dcs: "deps_cloned st0 G s []" by (simp add: deps_cloned_def)
    from copy_edges_step [OF g n cis dcs, of pa] obtain s' where
      run: "copy_edges n pa s = Some (None, s')"
      and ci': "clone_inv st0 G p s'" and ms': "snd s' = snd s" by blast
    have "?I (q @ map (\<lambda>m. m # pa) (fresh_next ?f vis (?g n)))
            (vis \<union> ?f ` set (fresh_next ?f vis (?g n))) s'"
      unfolding copy_inv_def using binv' ci' ms' ms by auto
    then have "?I (q @ map (\<lambda>m. m # pa)
                    (fresh_next (state_id s') vis (getDependents (heap (fst s')) n)))
             (vis \<union> state_id s' `
                    set (fresh_next (state_id s') vis (getDependents (heap (fst s')) n))) s'"
      unfolding clone_inv_expansion [OF g ci' n] .
    with pa run have "pa = n # rest \<and>
          (\<exists>r. copy_edges n pa s = Some r \<and>
            (case r of
               (Some e, s') \<Rightarrow> ?Q (Some e, s')
             | (None, s') \<Rightarrow>
                 ?I (q @ map (\<lambda>m. m # pa)
                       (fresh_next (state_id s') vis (getDependents (heap (fst s')) n)))
                   (vis \<union> state_id s' `
                      set (fresh_next (state_id s') vis (getDependents (heap (fst s')) n))) s'))"
      by simp
    then show "\<exists>n rest. pa = n # rest \<and>
          (\<exists>r. copy_edges n pa s = Some r \<and>
            (case r of
               (Some e, s') \<Rightarrow> ?Q (Some e, s')
             | (None, s') \<Rightarrow>
                 ?I (q @ map (\<lambda>m. m # pa)
                       (fresh_next (state_id s') vis (getDependents (heap (fst s')) n)))
                   (vis \<union> state_id s' `
                      set (fresh_next (state_id s') vis (getDependents (heap (fst s')) n))) s'))"
      by blast
  next
    fix vis s assume "?I [] vis s"
    then show "?Q (None, s)" unfolding copy_inv_def by simp
  qed
  then obtain e s2 where "traverse_loop state_id (\<lambda>s n. getDependents (heap (fst s)) n)
               copy_edges [[root]] {state_id s1 root} s1 = Some (e, s2)"
    and "?Q (e, s2)" by (metis surj_pair)
  then show ?thesis unfolding traverse_def by simp
qed

subsection \<open>The edges the second traversal adds\<close>

lemma addDependency_effect:
  assumes "a \<noteq> b" and "b \<notin> set (dependencies (h a))"
  shows "addDependency h a b =
     (None, h(b := (h b)\<lparr>dependents := dependents (h b) @ [a]\<rparr>,
              a := (h a)\<lparr>dependencies := dependencies (h a) @ [b]\<rparr>))"
  using assms by (simp add: addDependency_def Let_def)

lemma copy_dependencies_effect:
  assumes "\<forall>d\<in>set ds. snd s (state_id s d) \<noteq> None \<and> the (snd s (state_id s d)) \<noteq> c"
    and "distinct (map (\<lambda>d. the (snd s (state_id s d))) ds)"
    and "\<forall>d\<in>set ds. the (snd s (state_id s d)) \<notin> set (dependencies (heap (fst s) c))"
  shows "\<exists>s'. copy_dependencies c ds s = (None, s') \<and>
           dependencies (heap (fst s') c)
             = dependencies (heap (fst s) c) @ map (\<lambda>d. the (snd s (state_id s d))) ds \<and>
           (\<forall>x. x \<noteq> c \<longrightarrow> dependencies (heap (fst s') x) = dependencies (heap (fst s) x)) \<and>
           (\<forall>x. set (dependents (heap (fst s') x))
                 = set (dependents (heap (fst s) x)) \<union>
                   (if x \<in> (\<lambda>d. the (snd s (state_id s d))) ` set ds then {c} else {}))"
  using assms
proof (induction ds arbitrary: s)
  case Nil
  then show ?case by simp
next
  case (Cons d ds)
  let ?cl = "\<lambda>d. the (snd s (state_id s d))"
  let ?h = "heap (fst s)"
  from Cons.prems(1) obtain cd where cd: "snd s (state_id s d) = Some cd" by auto
  then have cld: "?cl d = cd" by simp
  from Cons.prems(1) cld have ne: "c \<noteq> cd" by auto
  from Cons.prems(3) cld have notin: "cd \<notin> set (dependencies (?h c))" by auto
  let ?h2 = "?h(cd := (?h cd)\<lparr>dependents := dependents (?h cd) @ [c]\<rparr>,
                c := (?h c)\<lparr>dependencies := dependencies (?h c) @ [cd]\<rparr>)"
  have add: "addDependency ?h c cd = (None, ?h2)"
    using ne notin by (rule addDependency_effect [where h = "heap (fst s)"])
  let ?s = "((fst s)\<lparr>heap := ?h2\<rparr>, snd s)"
  have ids: "state_id ?s x = state_id s x" for x by (simp add: state_id_def)
  have unfold: "copy_dependencies c (d # ds) s = copy_dependencies c ds ?s"
    by (simp add: cd add)
  have p1: "\<forall>d\<in>set ds. snd ?s (state_id ?s d) \<noteq> None \<and> the (snd ?s (state_id ?s d)) \<noteq> c"
    using Cons.prems(1) by (simp add: ids)
  have p2: "distinct (map (\<lambda>d. the (snd ?s (state_id ?s d))) ds)"
    using Cons.prems(2) by (simp add: ids)
  from Cons.prems(2) cld have fresh: "cd \<notin> ?cl ` set ds" by auto
  have depc: "dependencies (heap (fst ?s) c) = dependencies (?h c) @ [cd]" by simp
  have p3: "\<forall>d\<in>set ds. the (snd ?s (state_id ?s d)) \<notin> set (dependencies (heap (fst ?s) c))"
    unfolding depc using Cons.prems(3) fresh by (auto simp: ids)
  from Cons.IH [OF p1 p2 p3] obtain s' where
    run: "copy_dependencies c ds ?s = (None, s')"
    and d1: "dependencies (heap (fst s') c)
             = dependencies (heap (fst ?s) c) @ map (\<lambda>d. the (snd ?s (state_id ?s d))) ds"
    and d2: "\<forall>x. x \<noteq> c \<longrightarrow> dependencies (heap (fst s') x) = dependencies (heap (fst ?s) x)"
    and d3: "\<forall>x. set (dependents (heap (fst s') x))
                 = set (dependents (heap (fst ?s) x)) \<union>
                   (if x \<in> (\<lambda>d. the (snd ?s (state_id ?s d))) ` set ds then {c} else {})"
    by blast
  have e1: "dependencies (heap (fst s') c) = dependencies (?h c) @ map ?cl (d # ds)"
    using d1 cld by (simp add: ids)
  have e2: "\<forall>x. x \<noteq> c \<longrightarrow> dependencies (heap (fst s') x) = dependencies (?h x)"
    using d2 ne by simp
  have e3: "set (dependents (heap (fst s') x))
              = set (dependents (?h x)) \<union> (if x \<in> ?cl ` set (d # ds) then {c} else {})" for x
  proof -
    have "set (dependents (heap (fst ?s) x))
            = set (dependents (?h x)) \<union> (if x = cd then {c} else {})"
      using ne by auto
    with d3 [rule_format, of x] cld show ?thesis by (auto simp: ids)
  qed
  from run unfold e1 e2 e3 show ?case by auto
qed

lemma clone_of_inj:
  assumes ci: "clone_inv st0 G p s"
    and inj: "inj_on (\<lambda>r. node_id (heap st0 r)) G"
    and a: "a \<in> G" "node_id (heap st0 a) \<in> dom (snd s)"
    and b: "b \<in> G" "node_id (heap st0 b) \<in> dom (snd s)"
    and eq: "clone_of st0 (snd s) a = clone_of st0 (snd s) b"
  shows "a = b"
proof -
  let ?f = "\<lambda>r. node_id (heap st0 r)"
  from ci have rng: "\<forall>i c. snd s i = Some c \<longrightarrow> node_id (heap (fst s) c) = i"
    unfolding clone_inv_def by blast
  from a(2) obtain ca where ca: "snd s (?f a) = Some ca" by auto
  from b(2) obtain cb where cb: "snd s (?f b) = Some cb" by auto
  from ca cb eq have "ca = cb" by (simp add: clone_of_def)
  with rng ca cb have "?f a = ?f b" by metis
  with inj a(1) b(1) show ?thesis by (auto dest: inj_onD)
qed

lemma unwired_wired: "unwired s \<Longrightarrow> wired st0 G {} s"
  unfolding unwired_def wired_def clone_of_def by auto

lemma bfs_inv_done:
  assumes inv: "bfs_inv g f start U [] vis ys" and inj: "inj_on f U"
  shows "fst ` set ys = {n. (start, n) \<in> (expansion_rel g)\<^sup>*}"
proof (intro set_eqI iffI)
  note facts = bfs_inv_heads [OF inv]
  fix n assume "n \<in> fst ` set ys"
  then obtain y where "y \<in> set ys" "fst y = n" by auto
  with facts(3) is_path_reachable [of g start "snd y"]
  show "n \<in> {n. (start, n) \<in> (expansion_rel g)\<^sup>*}" by auto
next
  fix n assume "n \<in> {n. (start, n) \<in> (expansion_rel g)\<^sup>*}"
  then obtain p where "is_path g start p" "hd p = n"
    using reachable_is_path by blast
  with bfs_inv_shorter [OF inv inj, of p]
  show "n \<in> fst ` set ys" by force
qed

lemma copy_edges_wires:
  assumes g: "graph_in_store st0 G" and n: "n \<in> G"
    and nodup: "\<forall>a\<in>G. distinct (dependencies (heap st0 a))"
    and ci: "clone_inv st0 G p s" and dc: "deps_cloned st0 G s []"
    and nD: "n \<notin> D" and w: "wired st0 G D s"
  shows "\<exists>s'. copy_edges n pa s = Some (None, s') \<and> clone_inv st0 G p s' \<and>
           snd s' = snd s \<and> wired st0 G (insert n D) s'"
proof -
  let ?f = "\<lambda>r. node_id (heap st0 r)"
  let ?cl = "clone_of st0 (snd s)"
  let ?ds = "dependencies (heap st0 n)"
  from g have lt: "\<forall>x\<in>G. x < next_ref st0"
    and closed: "\<forall>x\<in>G. set (dependencies (heap st0 x)) \<subseteq> G"
    and inj: "inj_on ?f G" and acyc: "acyclic (Restr (depends_on (heap st0)) G)"
    by (simp_all add: graph_in_store_def)
  have idG: "state_id s x = ?f x" if "x \<in> G" for x
    using clone_inv_id [OF ci] lt that by blast
  from ci lt n have hn: "heap (fst s) n = heap st0 n" by (simp add: clone_inv_def)
  from copy_edges_step [OF g n ci dc, of pa] obtain s' where
    run: "copy_edges n pa s = Some (None, s')"
    and ci': "clone_inv st0 G p s'" and ms': "snd s' = snd s" by blast
  have "wired st0 G (insert n D) s'"
  proof (cases "snd s (?f n)")
    case None
    with run have s': "s' = s" by (simp add: copy_edges_def idG [OF n])
    from None have nn: "?f n \<notin> dom (snd s)" by auto
    show ?thesis
      unfolding wired_def s'
    proof (intro ballI impI)
      fix a assume a: "a \<in> G" "?f a \<in> dom (snd s)"
      with nn have an: "a \<noteq> n" by auto
      have "{b \<in> insert n D. ?f b \<in> dom (snd s) \<and> a \<in> set (dependencies (heap st0 b))}
          = {b \<in> D. ?f b \<in> dom (snd s) \<and> a \<in> set (dependencies (heap st0 b))}"
        using nn by auto
      with w a an show "dependencies (heap (fst s) (?cl a)) =
          (if a \<in> insert n D then map ?cl (dependencies (heap st0 a)) else []) \<and>
        set (dependents (heap (fst s) (?cl a))) =
          ?cl ` {b \<in> insert n D. ?f b \<in> dom (snd s) \<and> a \<in> set (dependencies (heap st0 b))}"
        unfolding wired_def by simp
    qed
  next
    case (Some c)
    then have ndom: "?f n \<in> dom (snd s)" by auto
    from Some have cln: "?cl n = c" by (simp add: clone_of_def)
    from closed n have dsG: "set ?ds \<subseteq> G" by blast
    have dsdom: "?f d \<in> dom (snd s)" if "d \<in> set ?ds" for d
      using dc n ndom that unfolding deps_cloned_def by auto
    have dsne: "d \<noteq> n" if "d \<in> set ?ds" for d
      using no_self_dependency [OF acyc n] that by auto
    have cleq: "the (snd s (state_id s d)) = ?cl d" if "d \<in> set ?ds" for d
      using idG dsG that by (auto simp: clone_of_def)
    have clne: "?cl d \<noteq> c" if "d \<in> set ?ds" for d
    proof
      assume "?cl d = c"
      with cln have "?cl d = ?cl n" by simp
      from clone_of_inj [OF ci inj _ dsdom [OF that] n ndom this] dsG that
      have "d = n" by blast
      with dsne [OF that] show False by simp
    qed
    have injds: "inj_on ?cl (set ?ds)"
    proof (rule inj_onI)
      fix x y assume "x \<in> set ?ds" "y \<in> set ?ds" "?cl x = ?cl y"
      with clone_of_inj [OF ci inj _ dsdom _ dsdom] dsG show "x = y" by blast
    qed
    from w n ndom nD cln have empty: "dependencies (heap (fst s) c) = []"
      unfolding wired_def by auto
    have mapeq: "map (\<lambda>d. the (snd s (state_id s d))) ?ds = map ?cl ?ds"
      by (rule map_cong [OF refl]) (rule cleq)
    have imgeq: "(\<lambda>d. the (snd s (state_id s d))) ` set ?ds = ?cl ` set ?ds"
      by (rule image_cong [OF refl]) (rule cleq)
    have q1: "\<forall>d\<in>set ?ds. snd s (state_id s d) \<noteq> None \<and> the (snd s (state_id s d)) \<noteq> c"
    proof
      fix d assume d: "d \<in> set ?ds"
      from dsdom [OF d] idG dsG d have "snd s (state_id s d) \<noteq> None" by auto
      with cleq [OF d] clne [OF d]
      show "snd s (state_id s d) \<noteq> None \<and> the (snd s (state_id s d)) \<noteq> c" by simp
    qed
    have q2: "distinct (map (\<lambda>d. the (snd s (state_id s d))) ?ds)"
      unfolding mapeq using nodup n injds by (simp add: distinct_map)
    have q3: "\<forall>d\<in>set ?ds. the (snd s (state_id s d)) \<notin> set (dependencies (heap (fst s) c))"
      by (simp add: empty)
    from copy_dependencies_effect [OF q1 q2 q3] obtain t where
      runt: "copy_dependencies c ?ds s = (None, t)"
      and e1: "dependencies (heap (fst t) c) = map ?cl ?ds"
      and e2: "\<forall>x. x \<noteq> c \<longrightarrow> dependencies (heap (fst t) x) = dependencies (heap (fst s) x)"
      and e3: "\<forall>x. set (dependents (heap (fst t) x))
                 = set (dependents (heap (fst s) x)) \<union> (if x \<in> ?cl ` set ?ds then {c} else {})"
      unfolding mapeq imgeq empty by auto
    have "copy_edges n pa s = Some (copy_dependencies c ?ds s)"
      using Some by (simp add: copy_edges_def idG [OF n] hn)
    with run runt have t: "t = s'" by simp
    show ?thesis
      unfolding wired_def ms'
    proof (intro ballI impI)
      fix a assume a: "a \<in> G" "?f a \<in> dom (snd s)"
      have mem: "?cl a \<in> ?cl ` set ?ds \<longleftrightarrow> a \<in> set ?ds"
      proof
        assume "?cl a \<in> ?cl ` set ?ds"
        then obtain d where d: "d \<in> set ?ds" "?cl a = ?cl d" by auto
        from clone_of_inj [OF ci inj a _ dsdom [OF d(1)] d(2)] dsG d(1) show "a \<in> set ?ds"
          by blast
      qed simp
      have sets: "{b \<in> insert n D. ?f b \<in> dom (snd s) \<and> a \<in> set (dependencies (heap st0 b))}
          = {b \<in> D. ?f b \<in> dom (snd s) \<and> a \<in> set (dependencies (heap st0 b))} \<union>
            (if a \<in> set ?ds then {n} else {})"
        using ndom by auto
      have deps: "dependencies (heap (fst s') (?cl a)) =
          (if a \<in> insert n D then map ?cl (dependencies (heap st0 a)) else [])"
      proof (cases "a = n")
        case True
        with e1 cln t show ?thesis by simp
      next
        case False
        have "?cl a \<noteq> c"
        proof
          assume "?cl a = c"
          with cln have "?cl a = ?cl n" by simp
          from clone_of_inj [OF ci inj a n ndom this] False show False by simp
        qed
        with e2 t have "dependencies (heap (fst s') (?cl a)) = dependencies (heap (fst s) (?cl a))"
          by simp
        with w a False show ?thesis unfolding wired_def by simp
      qed
      from w a have "set (dependents (heap (fst s) (?cl a))) =
          ?cl ` {b \<in> D. ?f b \<in> dom (snd s) \<and> a \<in> set (dependencies (heap st0 b))}"
        unfolding wired_def by simp
      with e3 [rule_format, of "?cl a"] t mem cln
      have "set (dependents (heap (fst s') (?cl a))) =
          ?cl ` {b \<in> insert n D. ?f b \<in> dom (snd s) \<and> a \<in> set (dependencies (heap st0 b))}"
        unfolding sets by auto
      with deps show "dependencies (heap (fst s') (?cl a)) =
          (if a \<in> insert n D then map ?cl (dependencies (heap st0 a)) else []) \<and>
        set (dependents (heap (fst s') (?cl a))) =
          ?cl ` {b \<in> insert n D. ?f b \<in> dom (snd s) \<and> a \<in> set (dependencies (heap st0 b))}"
        by simp
    qed
  qed
  with run ci' ms' show ?thesis by blast
qed

lemma bfs_inv_head_new:
  assumes "bfs_inv g f start U (pa # q) vis ys"
  shows "hd pa \<notin> fst ` set ys"
proof
  assume "hd pa \<in> fst ` set ys"
  then obtain y where y: "y \<in> set ys" "fst y = hd pa" by auto
  from assms have heads: "\<forall>y \<in> set ys. fst y = hd (snd y)"
    and dist: "distinct (map (\<lambda>p. f (hd p)) (map snd ys @ pa # q))"
    unfolding bfs_inv_def by simp_all
  from y(1) have "snd y \<in> set (map snd ys)" by simp
  moreover from heads y have "f (hd pa) = f (hd (snd y))" by simp
  ultimately have "f (hd pa) \<in> (\<lambda>p. f (hd p)) ` set (map snd ys)" by (rule rev_image_eqI)
  with dist show False by auto
qed

lemma copy_edges_total_wired:
  assumes g: "graph_in_store st0 G" and root: "root \<in> G"
    and nodup: "\<forall>a\<in>G. distinct (dependencies (heap st0 a))"
    and ci: "clone_inv st0 G p s1" and dc: "deps_cloned st0 G s1 []"
    and w: "wired st0 G {} s1"
  shows "\<exists>s2. traverse state_id root copy_edges
                 (\<lambda>s n. getDependents (heap (fst s)) n) s1 = Some (None, s2) \<and>
           clone_inv st0 G p s2 \<and> snd s2 = snd s1 \<and>
           wired st0 G {n. (root, n) \<in> (depended_by (heap st0))\<^sup>*} s2"
proof -
  let ?f = "\<lambda>r. node_id (heap st0 r)"
  let ?g = "\<lambda>n. dependents (heap st0 n)"
  let ?I = "wiring_inv st0 G p root (snd s1)"
  let ?R = "{n. (root, n) \<in> (depended_by (heap st0))\<^sup>*}"
  let ?Q = "\<lambda>r. fst r = None \<and> clone_inv st0 G p (snd r) \<and> snd (snd r) = snd s1 \<and>
                 wired st0 G ?R (snd r)"
  from g have fin: "finite G" and lt: "\<forall>x\<in>G. x < next_ref st0"
    and closed: "\<forall>x\<in>G. set (?g x) \<subseteq> G" and inj: "inj_on ?f G"
    by (simp_all add: graph_in_store_def)
  have rel: "expansion_rel ?g = depended_by (heap st0)"
    by (simp add: expansion_rel_def depended_by_def)
  have id0: "state_id s1 root = ?f root" using clone_inv_id [OF ci] lt root by blast
  have "\<exists>r. traverse_loop state_id (\<lambda>s n. getDependents (heap (fst s)) n)
               copy_edges [[root]] {state_id s1 root} s1 = Some r \<and> ?Q r"
  proof (rule traverse_loop_rule [where V = "?f ` G" and I = ?I])
    show "finite (?f ` G)" using fin by simp
    have "bfs_inv ?g ?f root G [[root]] {?f root} []" using root by (rule bfs_inv_initial)
    moreover have "wired st0 G (fst ` set []) s1" using w by simp
    ultimately show "?I [[root]] {state_id s1 root} s1"
      unfolding wiring_inv_def id0 using ci by blast
  next
    fix q vis s assume "?I q vis s"
    then obtain ys where "bfs_inv ?g ?f root G q vis ys"
      unfolding wiring_inv_def by blast
    then show "vis \<subseteq> ?f ` G" unfolding bfs_inv_def by blast
  next
    fix pa q vis s assume inv: "?I (pa # q) vis s"
    then obtain ys where binv: "bfs_inv ?g ?f root G (pa # q) vis ys"
      and ws: "wired st0 G (fst ` set ys) s"
      and cis: "clone_inv st0 G p s" and ms: "snd s = snd s1"
      unfolding wiring_inv_def by blast
    from bfs_inv_step [OF closed binv] obtain n rest where pa: "pa = n # rest"
      and binv': "bfs_inv ?g ?f root G (q @ map (\<lambda>m. m # pa) (fresh_next ?f vis (?g n)))
                  (vis \<union> ?f ` set (fresh_next ?f vis (?g n))) (ys @ [(n, pa)])" by blast
    from bfs_inv_head [OF binv] pa have n: "n \<in> G" by simp
    from bfs_inv_head_new [OF binv] pa have nnew: "n \<notin> fst ` set ys" by simp
    from dc ms have dcs: "deps_cloned st0 G s []" by (simp add: deps_cloned_def)
    from copy_edges_wires [OF g n nodup cis dcs nnew ws, of pa] obtain s' where
      run: "copy_edges n pa s = Some (None, s')"
      and ci': "clone_inv st0 G p s'" and ms': "snd s' = snd s"
      and ws': "wired st0 G (insert n (fst ` set ys)) s'" by blast
    have "fst ` set (ys @ [(n, pa)]) = insert n (fst ` set ys)" by simp
    with ws' have ws'': "wired st0 G (fst ` set (ys @ [(n, pa)])) s'" by simp
    from conjI [OF binv' ws'']
    have "\<exists>zs. bfs_inv ?g ?f root G (q @ map (\<lambda>m. m # pa) (fresh_next ?f vis (?g n)))
                  (vis \<union> ?f ` set (fresh_next ?f vis (?g n))) zs \<and>
               wired st0 G (fst ` set zs) s'" by (rule exI)
    moreover from ms' ms have "snd s' = snd s1" by simp
    ultimately have "?I (q @ map (\<lambda>m. m # pa) (fresh_next ?f vis (?g n)))
            (vis \<union> ?f ` set (fresh_next ?f vis (?g n))) s'"
      unfolding wiring_inv_def using ci' by simp
    then have "?I (q @ map (\<lambda>m. m # pa)
                    (fresh_next (state_id s') vis (getDependents (heap (fst s')) n)))
             (vis \<union> state_id s' `
                    set (fresh_next (state_id s') vis (getDependents (heap (fst s')) n))) s'"
      unfolding clone_inv_expansion [OF g ci' n] .
    with pa run have "pa = n # rest \<and>
          (\<exists>r. copy_edges n pa s = Some r \<and>
            (case r of
               (Some e, s') \<Rightarrow> ?Q (Some e, s')
             | (None, s') \<Rightarrow>
                 ?I (q @ map (\<lambda>m. m # pa)
                       (fresh_next (state_id s') vis (getDependents (heap (fst s')) n)))
                   (vis \<union> state_id s' `
                      set (fresh_next (state_id s') vis (getDependents (heap (fst s')) n))) s'))"
      by simp
    then show "\<exists>n rest. pa = n # rest \<and>
          (\<exists>r. copy_edges n pa s = Some r \<and>
            (case r of
               (Some e, s') \<Rightarrow> ?Q (Some e, s')
             | (None, s') \<Rightarrow>
                 ?I (q @ map (\<lambda>m. m # pa)
                       (fresh_next (state_id s') vis (getDependents (heap (fst s')) n)))
                   (vis \<union> state_id s' `
                      set (fresh_next (state_id s') vis (getDependents (heap (fst s')) n))) s'))"
      by blast
  next
    fix vis s assume "?I [] vis s"
    then obtain ys where binv: "bfs_inv ?g ?f root G [] vis ys"
      and ws: "wired st0 G (fst ` set ys) s"
      and cis: "clone_inv st0 G p s" and ms: "snd s = snd s1"
      unfolding wiring_inv_def by blast
    from bfs_inv_done [OF binv inj] have "fst ` set ys = ?R" unfolding rel .
    with ws cis ms show "?Q (None, s)" by simp
  qed
  then obtain e s2 where "traverse_loop state_id (\<lambda>s n. getDependents (heap (fst s)) n)
               copy_edges [[root]] {state_id s1 root} s1 = Some (e, s2)"
    and "?Q (e, s2)" by (metis surj_pair)
  then show ?thesis unfolding traverse_def by simp
qed

subsection \<open>The whole call\<close>

text \<open>
  On a graph of the data model the call returns: with the clone of the receiver when the
  map holds its id, and with the result-missing error otherwise. The consistency error
  and the self-dependency error do not occur.
\<close>

lemma clone_run:
  assumes g: "graph_in_store st G" and mem: "this \<in> G"
  shows "\<exists>root s2. getRootNode (heap st) this = Some root \<and> root \<in> G \<and>
           clone_inv st G p s2 \<and> deps_cloned st G s2 [] \<and>
           (\<forall>n. (root, n) \<in> (depended_by (heap st))\<^sup>* \<and> p n \<longrightarrow>
                node_id (heap st n) \<in> dom (snd s2)) \<and>
           cloneWithRelationships st this (Some p) =
             Some (case snd s2 (node_id (heap st this)) of
                     None \<Rightarrow> Inl CloneResultMissingError
                   | Some c \<Rightarrow> Inr c, fst s2)"
proof -
  let ?f = "\<lambda>r. node_id (heap st r)"
  from g have fin: "finite G" and lt: "\<forall>x\<in>G. x < next_ref st"
    and closed: "\<forall>x\<in>G. set (dependencies (heap st x)) \<subseteq> G"
    and acyc: "acyclic (Restr (depends_on (heap st)) G)"
    by (simp_all add: graph_in_store_def)
  from getRootNode_total [OF fin closed acyc mem] obtain root where
    root: "getRootNode (heap st) this = Some root" "root \<in> G" by blast
  from walk_down_total [OF g root(2), of p] obtain s1 where
    run1: "traverse state_id root (include_node (Some p))
             (\<lambda>s n. getDependents (heap (fst s)) n) (st, Map.empty) = Some (None, s1)"
    and ci1: "clone_inv st G p s1" and dc1: "deps_cloned st G s1 []"
    and kept1: "\<forall>n. (root, n) \<in> (depended_by (heap st))\<^sup>* \<and> p n \<longrightarrow> ?f n \<in> dom (snd s1)"
    by blast
  from copy_edges_total [OF g root(2) ci1 dc1] obtain s2 where
    run2: "traverse state_id root copy_edges
             (\<lambda>s n. getDependents (heap (fst s)) n) s1 = Some (None, s2)"
    and ci2: "clone_inv st G p s2" and m2: "snd s2 = snd s1" by blast
  from dc1 m2 have dc2: "deps_cloned st G s2 []" by (simp add: deps_cloned_def)
  from kept1 m2 have kept2:
    "\<forall>n. (root, n) \<in> (depended_by (heap st))\<^sup>* \<and> p n \<longrightarrow> ?f n \<in> dom (snd s2)" by simp
  have id2: "state_id s2 this = ?f this" using clone_inv_id [OF ci2] lt mem by blast
  have "cloneWithRelationships st this (Some p) =
          Some (case snd s2 (?f this) of
                  None \<Rightarrow> Inl CloneResultMissingError
                | Some c \<Rightarrow> Inr c, fst s2)"
    by (simp add: cloneWithRelationships_def root(1) run1 run2 id2 split: option.split)
  with root ci2 dc2 kept2 show ?thesis by blast
qed

lemma deps_cloned_closure:
  assumes g: "graph_in_store st G" and dc: "deps_cloned st G s []"
  shows "(n, a) \<in> (depends_on (heap st))\<^sup>* \<Longrightarrow> n \<in> G \<Longrightarrow>
         node_id (heap st n) \<in> dom (snd s) \<Longrightarrow> a \<in> G \<and> node_id (heap st a) \<in> dom (snd s)"
proof (induction rule: rtrancl_induct)
  case base
  then show ?case by simp
next
  case (step b c)
  then have b: "b \<in> G" "node_id (heap st b) \<in> dom (snd s)" by simp_all
  from step.hyps(2) have cb: "c \<in> set (dependencies (heap st b))" by (simp add: depends_on_def)
  with g b(1) have "c \<in> G" unfolding graph_in_store_def by blast
  moreover from dc b cb have "node_id (heap st c) \<in> dom (snd s)"
    unfolding deps_cloned_def by auto
  ultimately show ?case by simp
qed

lemma depended_by_closed:
  assumes g: "graph_in_store st G"
  shows "(root, n) \<in> (depended_by (heap st))\<^sup>* \<Longrightarrow> root \<in> G \<Longrightarrow> n \<in> G"
proof (induction rule: rtrancl_induct)
  case base
  then show ?case by simp
next
  case (step b c)
  then have "b \<in> G" by simp
  moreover from step.hyps(2) have "c \<in> set (dependents (heap st b))"
    by (simp add: depended_by_def)
  ultimately show ?case using g unfolding graph_in_store_def by blast
qed

lemma edge_symmetry_converse:
  "edge_symmetry h \<Longrightarrow> depends_on h = (depended_by h)\<inverse>"
  by (auto simp: edge_symmetry_def depends_on_def depended_by_def)

lemma depends_on_closed:
  assumes g: "graph_in_store st G"
  shows "(n, a) \<in> (depends_on (heap st))\<^sup>* \<Longrightarrow> n \<in> G \<Longrightarrow> a \<in> G"
proof (induction rule: rtrancl_induct)
  case base
  then show ?case by simp
next
  case (step b c)
  then have "b \<in> G" by simp
  moreover from step.hyps(2) have "c \<in> set (dependencies (heap st b))"
    by (simp add: depends_on_def)
  ultimately show ?case using g unfolding graph_in_store_def by blast
qed

lemma kept_subset: "graph_in_store st G \<Longrightarrow> kept st G p \<subseteq> G"
  unfolding kept_def using depends_on_closed by blast

lemma single_root_reaches:
  assumes sym: "edge_symmetry h"
    and single: "\<forall>a\<in>G. a \<noteq> r \<longrightarrow> (a, r) \<in> (depends_on h)\<^sup>+"
    and a: "a \<in> G"
  shows "(r, a) \<in> (depended_by h)\<^sup>*"
proof (cases "a = r")
  case True
  then show ?thesis by simp
next
  case False
  with single a have "(a, r) \<in> ((depended_by h)\<inverse>)\<^sup>+"
    by (simp add: edge_symmetry_converse [OF sym])
  then have "(r, a) \<in> (depended_by h)\<^sup>+" by (simp add: trancl_converse)
  then show ?thesis by (rule trancl_into_rtrancl)
qed

lemma single_root_unique:
  assumes single: "\<forall>a\<in>G. a \<noteq> r \<longrightarrow> (a, r) \<in> (depends_on h)\<^sup>+"
    and x: "x \<in> G" "dependencies (h x) = []"
  shows "x = r"
proof (rule ccontr)
  assume "x \<noteq> r"
  with single x(1) have "(x, r) \<in> (depends_on h)\<^sup>+" by blast
  then obtain z where "(x, z) \<in> depends_on h" by (blast dest: tranclD)
  with x(2) show False by (simp add: depends_on_def)
qed

text \<open>
  With symmetric, duplicate-free edge lists and a single root the second traversal visits
  every node of the graph: the map holds exactly the ids of the kept nodes, and every
  clone is wired.
\<close>

lemma clone_wired:
  assumes g: "graph_in_store st G" and mem: "this \<in> G"
    and sym: "edge_symmetry (heap st)" and nodup: "no_duplicate_edges (heap st)"
    and single: "\<forall>a\<in>G. a \<noteq> r \<longrightarrow> (a, r) \<in> (depends_on (heap st))\<^sup>+"
  shows "\<exists>s2. cloneWithRelationships st this (Some p) =
             Some (case snd s2 (node_id (heap st this)) of
                     None \<Rightarrow> Inl CloneResultMissingError
                   | Some c \<Rightarrow> Inr c, fst s2) \<and>
           clone_inv st G p s2 \<and>
           dom (snd s2) = (\<lambda>r. node_id (heap st r)) ` kept st G p \<and>
           wired st G G s2"
proof -
  let ?f = "\<lambda>r. node_id (heap st r)"
  from g have fin: "finite G" and lt: "\<forall>x\<in>G. x < next_ref st"
    and closed: "\<forall>x\<in>G. set (dependencies (heap st x)) \<subseteq> G"
    and acyc: "acyclic (Restr (depends_on (heap st)) G)"
    by (simp_all add: graph_in_store_def)
  from nodup have nd: "\<forall>a\<in>G. distinct (dependencies (heap st a))"
    by (simp add: no_duplicate_edges_def)
  from getRootNode_total [OF fin closed acyc mem] obtain root where
    root: "getRootNode (heap st) this = Some root" "root \<in> G"
    and noDeps: "dependencies (heap st root) = []" by blast
  from single_root_unique [OF single root(2) noDeps] have rr: "root = r" .
  from walk_down_total [OF g root(2), of p] obtain s1 where
    run1: "traverse state_id root (include_node (Some p))
             (\<lambda>s n. getDependents (heap (fst s)) n) (st, Map.empty) = Some (None, s1)"
    and ci1: "clone_inv st G p s1" and dc1: "deps_cloned st G s1 []"
    and kept1: "\<forall>n. (root, n) \<in> (depended_by (heap st))\<^sup>* \<and> p n \<longrightarrow> ?f n \<in> dom (snd s1)"
    by blast
  from walk_down_unwired [OF run1] have "unwired s1" by simp
  then have w1: "wired st G {} s1" by (rule unwired_wired)
  from copy_edges_total_wired [OF g root(2) nd ci1 dc1 w1] obtain s2 where
    run2: "traverse state_id root copy_edges
             (\<lambda>s n. getDependents (heap (fst s)) n) s1 = Some (None, s2)"
    and ci2: "clone_inv st G p s2" and m2: "snd s2 = snd s1"
    and w2: "wired st G {n. (root, n) \<in> (depended_by (heap st))\<^sup>*} s2" by blast
  have reach: "{n. (root, n) \<in> (depended_by (heap st))\<^sup>*} = G"
  proof (intro set_eqI iffI)
    fix n assume "n \<in> {n. (root, n) \<in> (depended_by (heap st))\<^sup>*}"
    then have "(root, n) \<in> (depended_by (heap st))\<^sup>*" by simp
    from depended_by_closed [OF g this root(2)] show "n \<in> G" .
  next
    fix n assume "n \<in> G"
    from single_root_reaches [OF sym single this]
    show "n \<in> {n. (root, n) \<in> (depended_by (heap st))\<^sup>*}" by (simp add: rr)
  qed
  from dc1 m2 have dc2: "deps_cloned st G s2 []" by (simp add: deps_cloned_def)
  have id2: "state_id s2 this = ?f this" using clone_inv_id [OF ci2] lt mem by blast
  have run: "cloneWithRelationships st this (Some p) =
          Some (case snd s2 (?f this) of
                  None \<Rightarrow> Inl CloneResultMissingError
                | Some c \<Rightarrow> Inr c, fst s2)"
    by (simp add: cloneWithRelationships_def root(1) run1 run2 id2 split: option.split)
  have dom: "dom (snd s2) = ?f ` kept st G p"
  proof (intro set_eqI iffI)
    fix i assume "i \<in> dom (snd s2)"
    with ci2 obtain a n where "a \<in> G" "?f a = i" "n \<in> G" "p n"
      "(n, a) \<in> (depends_on (heap st))\<^sup>*"
      unfolding clone_inv_def by blast
    then show "i \<in> ?f ` kept st G p" unfolding kept_def by blast
  next
    fix i assume "i \<in> ?f ` kept st G p"
    then obtain a n where i: "i = ?f a" and n: "n \<in> G" "p n"
      and na: "(n, a) \<in> (depends_on (heap st))\<^sup>*"
      unfolding kept_def by blast
    from single_root_reaches [OF sym single n(1)] rr
    have "(root, n) \<in> (depended_by (heap st))\<^sup>*" by simp
    with kept1 n(2) m2 have "?f n \<in> dom (snd s2)" by simp
    from deps_cloned_closure [OF g dc2 na n(1) this] i show "i \<in> dom (snd s2)" by simp
  qed
  from w2 have "wired st G G s2" unfolding reach .
  with run ci2 dom show ?thesis by blast
qed

text \<open>
  C8. On a graph of the data model with symmetric edge lists, when the predicate rejects
  the receiver and every node reachable from it along dependents, the call fails with the
  result-missing error (and with no other error, and it does return).
\<close>

theorem cloneWithRelationships_excluded:
  assumes "graph_in_store st G" and "edge_symmetry (heap st)" and "this \<in> G"
    and "\<forall>n. (this, n) \<in> (depended_by (heap st))\<^sup>* \<longrightarrow> \<not> p n"
  shows "\<exists>st'. cloneWithRelationships st this (Some p)
                 = Some (Inl CloneResultMissingError, st')"
proof -
  let ?f = "\<lambda>r. node_id (heap st r)"
  from clone_run [OF assms(1,3), of p] obtain root s2 where
    ci: "clone_inv st G p s2"
    and run: "cloneWithRelationships st this (Some p) =
             Some (case snd s2 (?f this) of
                     None \<Rightarrow> Inl CloneResultMissingError
                   | Some c \<Rightarrow> Inr c, fst s2)" by blast
  from assms(1) have inj: "inj_on ?f G" by (simp add: graph_in_store_def)
  have "snd s2 (?f this) = None"
  proof (rule ccontr)
    assume "snd s2 (?f this) \<noteq> None"
    then have "?f this \<in> dom (snd s2)" by auto
    with ci obtain a n where a: "a \<in> G" "?f a = ?f this"
      and n: "p n" "(n, a) \<in> (depends_on (heap st))\<^sup>*"
      unfolding clone_inv_def by blast
    from inj a assms(3) have "a = this" by (auto dest: inj_onD)
    with n(2) have "(n, this) \<in> ((depended_by (heap st))\<inverse>)\<^sup>*"
      by (simp add: edge_symmetry_converse [OF assms(2)])
    then have "(this, n) \<in> (depended_by (heap st))\<^sup>*"
      by (simp add: rtrancl_converse)
    with assms(4) n(1) show False by blast
  qed
  with run show ?thesis by simp
qed

subsection \<open>The example graph\<close>

lemma rbcd_fields:
  "node_id (rbcd_heap 0) = ''R''" "node_id (rbcd_heap (Suc 0)) = ''B''"
  "node_id (rbcd_heap 2) = ''C''" "node_id (rbcd_heap 3) = ''D''"
  "dependencies (rbcd_heap 0) = []" "dependencies (rbcd_heap (Suc 0)) = [0]"
  "dependencies (rbcd_heap 2) = [0]" "dependencies (rbcd_heap 3) = [1, 2]"
  "dependents (rbcd_heap 0) = [1, 2]" "dependents (rbcd_heap (Suc 0)) = [3]"
  "dependents (rbcd_heap 2) = [3]" "dependents (rbcd_heap 3) = []"
  "isMainDocument (rbcd_heap 0) = False" "isMainDocument (rbcd_heap (Suc 0)) = False"
  "isMainDocument (rbcd_heap 2) = False" "isMainDocument (rbcd_heap 3) = False"
  by (simp_all add: rbcd_heap_def add_edge_def addDependency_def rbcd_nodes_def new_BaseNode_def)

text \<open>
  Cloning from \<open>R\<close> with a predicate that accepts only \<open>D\<close>: four objects are created
  (references 4 to 7), clones of \<open>D\<close>, \<open>B\<close>, \<open>C\<close>, \<open>R\<close> in this order; the clone of \<open>D\<close>
  depends on those of \<open>B\<close> and \<open>C\<close>, which depend on that of \<open>R\<close>; the originals are as
  before; the result is the clone of \<open>R\<close>. Called on \<open>D\<close>, \<open>B\<close> or \<open>C\<close> the same
  objects are created and the result is the clone of the receiver.
\<close>

lemma clone_rbcd_only_D:
  "map_option (\<lambda>(r, st'). (r, next_ref st', snapshot st' [0, 1, 2, 3, 4, 5, 6, 7]))
     (cloneWithRelationships rbcd_store 0 (Some (\<lambda>n. n = 3)))
   = Some (Inr 7, 8,
       [(''R'', [], [1, 2]), (''B'', [0], [3]), (''C'', [0], [3]), (''D'', [1, 2], []),
        (''D'', [5, 6], []), (''B'', [7], [4]), (''C'', [7], [4]), (''R'', [], [5, 6])])"
  by (simp add: cloneWithRelationships_def rbcd_store_def getRootNode.simps traverse_def
      traverse_loop.simps include_node_def set_clone_def cloneWithoutRelationships_def
      uncloned_dependencies_def copy_edges_def state_id_def getDependents_def
      addDependency_def new_BaseNode_def snapshot_def rbcd_fields Let_def)

lemma clone_rbcd_only_D_from_D:
  "map_option (\<lambda>(r, st'). (r, next_ref st', snapshot st' [0, 1, 2, 3, 4, 5, 6, 7]))
     (cloneWithRelationships rbcd_store 3 (Some (\<lambda>n. n = 3)))
   = Some (Inr 4, 8,
       [(''R'', [], [1, 2]), (''B'', [0], [3]), (''C'', [0], [3]), (''D'', [1, 2], []),
        (''D'', [5, 6], []), (''B'', [7], [4]), (''C'', [7], [4]), (''R'', [], [5, 6])])"
  by (simp add: cloneWithRelationships_def rbcd_store_def getRootNode.simps traverse_def
      traverse_loop.simps include_node_def set_clone_def cloneWithoutRelationships_def
      uncloned_dependencies_def copy_edges_def state_id_def getDependents_def
      addDependency_def new_BaseNode_def snapshot_def rbcd_fields Let_def)

lemma clone_rbcd_only_D_from_B:
  "map_option (\<lambda>(r, st'). (r, next_ref st', snapshot st' [0, 1, 2, 3, 4, 5, 6, 7]))
     (cloneWithRelationships rbcd_store 1 (Some (\<lambda>n. n = 3)))
   = Some (Inr 5, 8,
       [(''R'', [], [1, 2]), (''B'', [0], [3]), (''C'', [0], [3]), (''D'', [1, 2], []),
        (''D'', [5, 6], []), (''B'', [7], [4]), (''C'', [7], [4]), (''R'', [], [5, 6])])"
  by (simp add: cloneWithRelationships_def rbcd_store_def getRootNode.simps traverse_def
      traverse_loop.simps include_node_def set_clone_def cloneWithoutRelationships_def
      uncloned_dependencies_def copy_edges_def state_id_def getDependents_def
      addDependency_def new_BaseNode_def snapshot_def rbcd_fields Let_def)

lemma clone_rbcd_only_D_from_C:
  "map_option (\<lambda>(r, st'). (r, next_ref st', snapshot st' [0, 1, 2, 3, 4, 5, 6, 7]))
     (cloneWithRelationships rbcd_store 2 (Some (\<lambda>n. n = 3)))
   = Some (Inr 6, 8,
       [(''R'', [], [1, 2]), (''B'', [0], [3]), (''C'', [0], [3]), (''D'', [1, 2], []),
        (''D'', [5, 6], []), (''B'', [7], [4]), (''C'', [7], [4]), (''R'', [], [5, 6])])"
  by (simp add: cloneWithRelationships_def rbcd_store_def getRootNode.simps traverse_def
      traverse_loop.simps include_node_def set_clone_def cloneWithoutRelationships_def
      uncloned_dependencies_def copy_edges_def state_id_def getDependents_def
      addDependency_def new_BaseNode_def snapshot_def rbcd_fields Let_def)

lemma rbcd_graph: "graph_in_store rbcd_store {0, 1, 2, 3}"
proof -
  let ?G = "{0, 1, 2, 3::ref}"
  have lt: "b < a" if "(a, b) \<in> Restr (depends_on rbcd_heap) ?G" for a b
    using that by (auto simp: depends_on_def rbcd_fields)
  have "acyclic (Restr (depends_on rbcd_heap) ?G)"
    by (rule acyclicI_order [where f = "\<lambda>n. n"]) (rule lt)
  moreover have "inj_on (\<lambda>r. node_id (rbcd_heap r)) ?G" by (simp add: rbcd_fields)
  moreover have "\<forall>n\<in>?G. n < 4 \<and> set (dependencies (rbcd_heap n)) \<subseteq> ?G \<and>
      set (dependents (rbcd_heap n)) \<subseteq> ?G"
    by (simp add: rbcd_fields)
  ultimately show ?thesis by (simp add: graph_in_store_def rbcd_store_def)
qed

lemma rbcd_symmetry: "edge_symmetry rbcd_heap"
proof -
  have "edge_symmetry rbcd_nodes \<and> no_duplicate_edges rbcd_nodes"
    by (simp add: edge_symmetry_def no_duplicate_edges_def rbcd_nodes_def new_BaseNode_def)
  then have "edge_symmetry rbcd_heap \<and> no_duplicate_edges rbcd_heap"
    unfolding rbcd_heap_def by (intro add_edge_invariant)
  then show ?thesis by simp
qed

lemma rbcd_no_duplicates: "no_duplicate_edges rbcd_heap"
proof -
  have "edge_symmetry rbcd_nodes \<and> no_duplicate_edges rbcd_nodes"
    by (simp add: edge_symmetry_def no_duplicate_edges_def rbcd_nodes_def new_BaseNode_def)
  then have "edge_symmetry rbcd_heap \<and> no_duplicate_edges rbcd_heap"
    unfolding rbcd_heap_def by (intro add_edge_invariant)
  then show ?thesis by simp
qed

lemma rbcd_single_root:
  "\<forall>a\<in>{0, 1, 2, 3}. a \<noteq> 0 \<longrightarrow> (a, 0) \<in> (depends_on rbcd_heap)\<^sup>+"
proof -
  have e1: "(Suc 0, 0) \<in> depends_on rbcd_heap" by (simp add: depends_on_def rbcd_fields)
  have e2: "(2, 0) \<in> depends_on rbcd_heap" by (simp add: depends_on_def rbcd_fields)
  have e3: "(3, Suc 0) \<in> depends_on rbcd_heap" by (simp add: depends_on_def rbcd_fields)
  from e3 e1 have "(3, 0) \<in> (depends_on rbcd_heap)\<^sup>+" by (rule trancl_into_trancl2 [OF _ r_into_trancl])
  with e1 e2 show ?thesis by auto
qed

lemma rbcd_D_no_dependents: "(3, n) \<in> (depended_by rbcd_heap)\<^sup>* \<Longrightarrow> n = 3"
  by (induction rule: rtrancl_induct) (simp_all add: depended_by_def rbcd_fields)

text \<open>
  C4. The example evaluates as the claim says, whichever of the four nodes the call is made
  on: four objects are created, clones of \<open>D\<close>, \<open>B\<close>, \<open>C\<close>, \<open>R\<close>, the four dependency
  edges are reproduced between them, the originals are as before, and the result is the
  clone of the receiver (first four conjuncts).

  In general, on every graph of the data model the call with a predicate returns, on any
  node of the graph, with a clone or with the result-missing error; it leaves the original
  objects as they were; and for every node \<open>n\<close> that the walk down the dependents from the
  root reaches and the predicate accepts, every node \<open>a\<close> on a dependency chain from \<open>n\<close>
  (up to the root, and \<open>n\<close> itself) has a clone among the objects created by the call: an
  object with the id and the main-document flag of \<open>a\<close> (fifth conjunct).

  When moreover the edge lists are symmetric and free of duplicates and every node other
  than \<open>r\<close> eventually depends on \<open>r\<close> (the single root of the file header), the kept
  nodes (the nodes on a dependency chain of an accepted node of the graph) are closed
  under dependencies, and there is a one-to-one map \<open>cl\<close> from the kept nodes to objects
  created by the call such that \<open>cl a\<close> has the id and the main-document flag of \<open>a\<close>, the
  dependencies of \<open>cl a\<close> are the clones of the dependencies of \<open>a\<close>, in the same order, and
  the dependents of \<open>cl a\<close> are the clones of the kept dependents of \<open>a\<close>; the result is
  the clone of the receiver when the receiver is kept, and the result-missing error
  otherwise (last conjunct).
\<close>

theorem cloneWithRelationships_keeps_ancestors:
  assumes "graph_in_store st G" and "this \<in> G"
  shows
    "(map_option (\<lambda>(r, st'). (r, next_ref st', snapshot st' [0, 1, 2, 3, 4, 5, 6, 7]))
        (cloneWithRelationships rbcd_store 0 (Some (\<lambda>n. n = 3)))
      = Some (Inr 7, 8,
          [(''R'', [], [1, 2]), (''B'', [0], [3]), (''C'', [0], [3]), (''D'', [1, 2], []),
           (''D'', [5, 6], []), (''B'', [7], [4]), (''C'', [7], [4]), (''R'', [], [5, 6])])) \<and>
     (map_option (\<lambda>(r, st'). (r, next_ref st', snapshot st' [0, 1, 2, 3, 4, 5, 6, 7]))
        (cloneWithRelationships rbcd_store 1 (Some (\<lambda>n. n = 3)))
      = Some (Inr 5, 8,
          [(''R'', [], [1, 2]), (''B'', [0], [3]), (''C'', [0], [3]), (''D'', [1, 2], []),
           (''D'', [5, 6], []), (''B'', [7], [4]), (''C'', [7], [4]), (''R'', [], [5, 6])])) \<and>
     (map_option (\<lambda>(r, st'). (r, next_ref st', snapshot st' [0, 1, 2, 3, 4, 5, 6, 7]))
        (cloneWithRelationships rbcd_store 2 (Some (\<lambda>n. n = 3)))
      = Some (Inr 6, 8,
          [(''R'', [], [1, 2]), (''B'', [0], [3]), (''C'', [0], [3]), (''D'', [1, 2], []),
           (''D'', [5, 6], []), (''B'', [7], [4]), (''C'', [7], [4]), (''R'', [], [5, 6])])) \<and>
     (map_option (\<lambda>(r, st'). (r, next_ref st', snapshot st' [0, 1, 2, 3, 4, 5, 6, 7]))
        (cloneWithRelationships rbcd_store 3 (Some (\<lambda>n. n = 3)))
      = Some (Inr 4, 8,
          [(''R'', [], [1, 2]), (''B'', [0], [3]), (''C'', [0], [3]), (''D'', [1, 2], []),
           (''D'', [5, 6], []), (''B'', [7], [4]), (''C'', [7], [4]), (''R'', [], [5, 6])])) \<and>
     (\<exists>root r st'.
        getRootNode (heap st) this = Some root \<and>
        cloneWithRelationships st this (Some p) = Some (r, st') \<and>
        (r = Inl CloneResultMissingError \<or> (\<exists>c. r = Inr c)) \<and>
        (\<forall>x. x < next_ref st \<longrightarrow> heap st' x = heap st x) \<and>
        (\<forall>n a. (root, n) \<in> (depended_by (heap st))\<^sup>* \<and> p n \<and>
               (n, a) \<in> (depends_on (heap st))\<^sup>* \<longrightarrow>
           (\<exists>c. next_ref st \<le> c \<and> c < next_ref st' \<and>
                node_id (heap st' c) = node_id (heap st a) \<and>
                isMainDocument (heap st' c) = isMainDocument (heap st a)))) \<and>
     (edge_symmetry (heap st) \<and> no_duplicate_edges (heap st) \<and>
      (\<forall>a\<in>G. a \<noteq> r \<longrightarrow> (a, r) \<in> (depends_on (heap st))\<^sup>+) \<longrightarrow>
      (\<exists>cl res st'.
         cloneWithRelationships st this (Some p) = Some (res, st') \<and>
         res = (if this \<in> kept st G p then Inr (cl this) else Inl CloneResultMissingError) \<and>
         (\<forall>x. x < next_ref st \<longrightarrow> heap st' x = heap st x) \<and>
         inj_on cl (kept st G p) \<and>
         (\<forall>a\<in>kept st G p.
            set (dependencies (heap st a)) \<subseteq> kept st G p \<and>
            next_ref st \<le> cl a \<and> cl a < next_ref st' \<and>
            node_id (heap st' (cl a)) = node_id (heap st a) \<and>
            isMainDocument (heap st' (cl a)) = isMainDocument (heap st a) \<and>
            dependencies (heap st' (cl a)) = map cl (dependencies (heap st a)) \<and>
            set (dependents (heap st' (cl a)))
              = cl ` (set (dependents (heap st a)) \<inter> kept st G p))))"
proof (intro conjI impI)
  show "map_option (\<lambda>(r, st'). (r, next_ref st', snapshot st' [0, 1, 2, 3, 4, 5, 6, 7]))
        (cloneWithRelationships rbcd_store 0 (Some (\<lambda>n. n = 3)))
      = Some (Inr 7, 8,
          [(''R'', [], [1, 2]), (''B'', [0], [3]), (''C'', [0], [3]), (''D'', [1, 2], []),
           (''D'', [5, 6], []), (''B'', [7], [4]), (''C'', [7], [4]), (''R'', [], [5, 6])])"
    by (rule clone_rbcd_only_D)
next
  show "map_option (\<lambda>(r, st'). (r, next_ref st', snapshot st' [0, 1, 2, 3, 4, 5, 6, 7]))
        (cloneWithRelationships rbcd_store 1 (Some (\<lambda>n. n = 3)))
      = Some (Inr 5, 8,
          [(''R'', [], [1, 2]), (''B'', [0], [3]), (''C'', [0], [3]), (''D'', [1, 2], []),
           (''D'', [5, 6], []), (''B'', [7], [4]), (''C'', [7], [4]), (''R'', [], [5, 6])])"
    by (rule clone_rbcd_only_D_from_B)
next
  show "map_option (\<lambda>(r, st'). (r, next_ref st', snapshot st' [0, 1, 2, 3, 4, 5, 6, 7]))
        (cloneWithRelationships rbcd_store 2 (Some (\<lambda>n. n = 3)))
      = Some (Inr 6, 8,
          [(''R'', [], [1, 2]), (''B'', [0], [3]), (''C'', [0], [3]), (''D'', [1, 2], []),
           (''D'', [5, 6], []), (''B'', [7], [4]), (''C'', [7], [4]), (''R'', [], [5, 6])])"
    by (rule clone_rbcd_only_D_from_C)
next
  show "map_option (\<lambda>(r, st'). (r, next_ref st', snapshot st' [0, 1, 2, 3, 4, 5, 6, 7]))
        (cloneWithRelationships rbcd_store 3 (Some (\<lambda>n. n = 3)))
      = Some (Inr 4, 8,
          [(''R'', [], [1, 2]), (''B'', [0], [3]), (''C'', [0], [3]), (''D'', [1, 2], []),
           (''D'', [5, 6], []), (''B'', [7], [4]), (''C'', [7], [4]), (''R'', [], [5, 6])])"
    by (rule clone_rbcd_only_D_from_D)
next
  let ?f = "\<lambda>r. node_id (heap st r)"
  from clone_run [OF assms, of p] obtain root s2 where
    root: "getRootNode (heap st) this = Some root" "root \<in> G"
    and ci: "clone_inv st G p s2" and dc: "deps_cloned st G s2 []"
    and kept: "\<forall>n. (root, n) \<in> (depended_by (heap st))\<^sup>* \<and> p n \<longrightarrow> ?f n \<in> dom (snd s2)"
    and run: "cloneWithRelationships st this (Some p) =
             Some (case snd s2 (?f this) of
                     None \<Rightarrow> Inl CloneResultMissingError
                   | Some c \<Rightarrow> Inr c, fst s2)" by blast
  let ?r = "case snd s2 (?f this) of None \<Rightarrow> Inl CloneResultMissingError | Some c \<Rightarrow> Inr c"
  have r: "?r = Inl CloneResultMissingError \<or> (\<exists>c. ?r = Inr c)"
    by (cases "snd s2 (?f this)") simp_all
  from ci have same: "\<forall>x. x < next_ref st \<longrightarrow> heap (fst s2) x = heap st x"
    and rng: "\<forall>i c. snd s2 i = Some c \<longrightarrow>
        next_ref st \<le> c \<and> c < next_ref (fst s2) \<and> node_id (heap (fst s2) c) = i"
    and flag: "\<forall>a\<in>G. \<forall>c. snd s2 (?f a) = Some c \<longrightarrow>
        isMainDocument (heap (fst s2) c) = isMainDocument (heap st a)"
    unfolding clone_inv_def by blast+
  have anc: "\<exists>c. next_ref st \<le> c \<and> c < next_ref (fst s2) \<and>
                node_id (heap (fst s2) c) = ?f a \<and>
                isMainDocument (heap (fst s2) c) = isMainDocument (heap st a)"
    if n: "(root, n) \<in> (depended_by (heap st))\<^sup>*" "p n"
      and a: "(n, a) \<in> (depends_on (heap st))\<^sup>*" for n a
  proof -
    from depended_by_closed [OF assms(1) n(1) root(2)] have nG: "n \<in> G" .
    from kept n have "?f n \<in> dom (snd s2)" by blast
    from deps_cloned_closure [OF assms(1) dc a nG this]
    have aG: "a \<in> G" and "?f a \<in> dom (snd s2)" by simp_all
    then obtain c where c: "snd s2 (?f a) = Some c" by auto
    with rng flag aG show ?thesis by blast
  qed
  show "\<exists>root r st'.
        getRootNode (heap st) this = Some root \<and>
        cloneWithRelationships st this (Some p) = Some (r, st') \<and>
        (r = Inl CloneResultMissingError \<or> (\<exists>c. r = Inr c)) \<and>
        (\<forall>x. x < next_ref st \<longrightarrow> heap st' x = heap st x) \<and>
        (\<forall>n a. (root, n) \<in> (depended_by (heap st))\<^sup>* \<and> p n \<and>
               (n, a) \<in> (depends_on (heap st))\<^sup>* \<longrightarrow>
           (\<exists>c. next_ref st \<le> c \<and> c < next_ref st' \<and>
                node_id (heap st' c) = node_id (heap st a) \<and>
                isMainDocument (heap st' c) = isMainDocument (heap st a)))"
    using root(1) run r same anc by blast
next
  assume inv: "edge_symmetry (heap st) \<and> no_duplicate_edges (heap st) \<and>
      (\<forall>a\<in>G. a \<noteq> r \<longrightarrow> (a, r) \<in> (depends_on (heap st))\<^sup>+)"
  then have sym: "edge_symmetry (heap st)" and nodup: "no_duplicate_edges (heap st)"
    and single: "\<forall>a\<in>G. a \<noteq> r \<longrightarrow> (a, r) \<in> (depends_on (heap st))\<^sup>+" by simp_all
  let ?f = "\<lambda>r. node_id (heap st r)"
  let ?K = "kept st G p"
  from clone_wired [OF assms sym nodup single, of p] obtain s2 where
    run: "cloneWithRelationships st this (Some p) =
             Some (case snd s2 (?f this) of
                     None \<Rightarrow> Inl CloneResultMissingError
                   | Some c \<Rightarrow> Inr c, fst s2)"
    and ci: "clone_inv st G p s2" and dom: "dom (snd s2) = ?f ` ?K"
    and w: "wired st G G s2" by blast
  let ?cl = "clone_of st (snd s2)"
  let ?res = "if this \<in> ?K then Inr (?cl this) else Inl CloneResultMissingError"
  from assms(1) have inj: "inj_on ?f G" by (simp add: graph_in_store_def)
  have KG: "?K \<subseteq> G" by (rule kept_subset [OF assms(1)])
  have memK: "?f a \<in> dom (snd s2) \<longleftrightarrow> a \<in> ?K" if "a \<in> G" for a
  proof
    assume "?f a \<in> dom (snd s2)"
    with dom obtain b where b: "b \<in> ?K" "?f a = ?f b" by auto
    with inj KG that have "a = b" by (auto dest: inj_onD)
    with b(1) show "a \<in> ?K" by simp
  qed (simp add: dom)
  from ci have same: "\<forall>x. x < next_ref st \<longrightarrow> heap (fst s2) x = heap st x"
    and rng: "\<forall>i c. snd s2 i = Some c \<longrightarrow>
        next_ref st \<le> c \<and> c < next_ref (fst s2) \<and> node_id (heap (fst s2) c) = i"
    and flag: "\<forall>a\<in>G. \<forall>c. snd s2 (?f a) = Some c \<longrightarrow>
        isMainDocument (heap (fst s2) c) = isMainDocument (heap st a)"
    unfolding clone_inv_def by blast+
  have entry: "snd s2 (?f a) = Some (?cl a)" if "a \<in> ?K" for a
  proof -
    from that dom have "?f a \<in> dom (snd s2)" by simp
    then show ?thesis by (auto simp: clone_of_def)
  qed
  have res: "(case snd s2 (?f this) of None \<Rightarrow> Inl CloneResultMissingError | Some c \<Rightarrow> Inr c)
             = ?res"
  proof (cases "this \<in> ?K")
    case True
    with entry [OF True] show ?thesis by simp
  next
    case False
    with memK [OF assms(2)] have "snd s2 (?f this) = None" by auto
    with False show ?thesis by simp
  qed
  have injcl: "inj_on ?cl ?K"
  proof (rule inj_onI)
    fix x y assume x: "x \<in> ?K" and y: "y \<in> ?K" and eq: "?cl x = ?cl y"
    from x y KG have xG: "x \<in> G" and yG: "y \<in> G" by auto
    from x y dom have "?f x \<in> dom (snd s2)" "?f y \<in> dom (snd s2)" by simp_all
    from clone_of_inj [OF ci inj xG this(1) yG this(2) eq] show "x = y" .
  qed
  have each: "set (dependencies (heap st a)) \<subseteq> ?K \<and>
            next_ref st \<le> ?cl a \<and> ?cl a < next_ref (fst s2) \<and>
            node_id (heap (fst s2) (?cl a)) = ?f a \<and>
            isMainDocument (heap (fst s2) (?cl a)) = isMainDocument (heap st a) \<and>
            dependencies (heap (fst s2) (?cl a)) = map ?cl (dependencies (heap st a)) \<and>
            set (dependents (heap (fst s2) (?cl a)))
              = ?cl ` (set (dependents (heap st a)) \<inter> ?K)" if a: "a \<in> ?K" for a
  proof -
    from a KG have aG: "a \<in> G" by auto
    from a dom have adom: "?f a \<in> dom (snd s2)" by simp
    have closed: "set (dependencies (heap st a)) \<subseteq> ?K"
    proof
      fix d assume "d \<in> set (dependencies (heap st a))"
      then have "(a, d) \<in> depends_on (heap st)" by (simp add: depends_on_def)
      moreover from a obtain n where "n \<in> G" "p n" "(n, a) \<in> (depends_on (heap st))\<^sup>*"
        unfolding kept_def by blast
      ultimately show "d \<in> ?K" unfolding kept_def by (blast intro: rtrancl_into_rtrancl)
    qed
    from rng entry [OF a] have c1: "next_ref st \<le> ?cl a" "?cl a < next_ref (fst s2)"
      "node_id (heap (fst s2) (?cl a)) = ?f a" by blast+
    from flag aG entry [OF a]
    have c2: "isMainDocument (heap (fst s2) (?cl a)) = isMainDocument (heap st a)" by blast
    from w aG adom
    have c3: "dependencies (heap (fst s2) (?cl a)) = map ?cl (dependencies (heap st a))"
      and c4: "set (dependents (heap (fst s2) (?cl a))) =
          ?cl ` {b \<in> G. ?f b \<in> dom (snd s2) \<and> a \<in> set (dependencies (heap st b))}"
      unfolding wired_def by simp_all
    have "{b \<in> G. ?f b \<in> dom (snd s2) \<and> a \<in> set (dependencies (heap st b))}
          = set (dependents (heap st a)) \<inter> ?K"
      using memK KG sym unfolding edge_symmetry_def by auto
    with c4 have c5: "set (dependents (heap (fst s2) (?cl a)))
              = ?cl ` (set (dependents (heap st a)) \<inter> ?K)" by simp
    from closed c1 c2 c3 c5 show ?thesis by simp
  qed
  have "cloneWithRelationships st this (Some p) = Some (?res, fst s2) \<and>
         ?res = (if this \<in> ?K then Inr (?cl this) else Inl CloneResultMissingError) \<and>
         (\<forall>x. x < next_ref st \<longrightarrow> heap (fst s2) x = heap st x) \<and>
         inj_on ?cl ?K \<and>
         (\<forall>a\<in>?K.
            set (dependencies (heap st a)) \<subseteq> ?K \<and>
            next_ref st \<le> ?cl a \<and> ?cl a < next_ref (fst s2) \<and>
            node_id (heap (fst s2) (?cl a)) = node_id (heap st a) \<and>
            isMainDocument (heap (fst s2) (?cl a)) = isMainDocument (heap st a) \<and>
            dependencies (heap (fst s2) (?cl a)) = map ?cl (dependencies (heap st a)) \<and>
            set (dependents (heap (fst s2) (?cl a)))
              = ?cl ` (set (dependents (heap st a)) \<inter> ?K))"
    using run res same injcl each by simp
  then show "\<exists>cl res st'.
         cloneWithRelationships st this (Some p) = Some (res, st') \<and>
         res = (if this \<in> ?K then Inr (cl this) else Inl CloneResultMissingError) \<and>
         (\<forall>x. x < next_ref st \<longrightarrow> heap st' x = heap st x) \<and>
         inj_on cl ?K \<and>
         (\<forall>a\<in>?K.
            set (dependencies (heap st a)) \<subseteq> ?K \<and>
            next_ref st \<le> cl a \<and> cl a < next_ref st' \<and>
            node_id (heap st' (cl a)) = node_id (heap st a) \<and>
            isMainDocument (heap st' (cl a)) = isMainDocument (heap st a) \<and>
            dependencies (heap st' (cl a)) = map cl (dependencies (heap st a)) \<and>
            set (dependents (heap st' (cl a)))
              = cl ` (set (dependents (heap st a)) \<inter> ?K))"
    by blast
qed

theorem cloneWithRelationships_keeps_ancestors_witness:
  "(map_option (\<lambda>(r, st'). (r, next_ref st', snapshot st' [0, 1, 2, 3, 4, 5, 6, 7]))
        (cloneWithRelationships rbcd_store 0 (Some (\<lambda>n. n = 3)))
      = Some (Inr 7, 8,
          [(''R'', [], [1, 2]), (''B'', [0], [3]), (''C'', [0], [3]), (''D'', [1, 2], []),
           (''D'', [5, 6], []), (''B'', [7], [4]), (''C'', [7], [4]), (''R'', [], [5, 6])])) \<and>
   (\<exists>root r st'.
        getRootNode (heap rbcd_store) 3 = Some root \<and>
        cloneWithRelationships rbcd_store 3 (Some (\<lambda>n. n = 3)) = Some (r, st') \<and>
        (r = Inl CloneResultMissingError \<or> (\<exists>c. r = Inr c)) \<and>
        (\<forall>x. x < next_ref rbcd_store \<longrightarrow> heap st' x = heap rbcd_store x) \<and>
        (\<forall>n a. (root, n) \<in> (depended_by (heap rbcd_store))\<^sup>* \<and> n = 3 \<and>
               (n, a) \<in> (depends_on (heap rbcd_store))\<^sup>* \<longrightarrow>
           (\<exists>c. next_ref rbcd_store \<le> c \<and> c < next_ref st' \<and>
                node_id (heap st' c) = node_id (heap rbcd_store a) \<and>
                isMainDocument (heap st' c) = isMainDocument (heap rbcd_store a)))) \<and>
   (\<exists>cl res st'.
         cloneWithRelationships rbcd_store 3 (Some (\<lambda>n. n = 3)) = Some (res, st') \<and>
         res = (if 3 \<in> kept rbcd_store {0, 1, 2, 3} (\<lambda>n. n = 3) then Inr (cl 3)
                else Inl CloneResultMissingError) \<and>
         (\<forall>x. x < next_ref rbcd_store \<longrightarrow> heap st' x = heap rbcd_store x) \<and>
         inj_on cl (kept rbcd_store {0, 1, 2, 3} (\<lambda>n. n = 3)) \<and>
         (\<forall>a\<in>kept rbcd_store {0, 1, 2, 3} (\<lambda>n. n = 3).
            set (dependencies (heap rbcd_store a)) \<subseteq> kept rbcd_store {0, 1, 2, 3} (\<lambda>n. n = 3) \<and>
            next_ref rbcd_store \<le> cl a \<and> cl a < next_ref st' \<and>
            node_id (heap st' (cl a)) = node_id (heap rbcd_store a) \<and>
            isMainDocument (heap st' (cl a)) = isMainDocument (heap rbcd_store a) \<and>
            dependencies (heap st' (cl a)) = map cl (dependencies (heap rbcd_store a)) \<and>
            set (dependents (heap st' (cl a)))
              = cl ` (set (dependents (heap rbcd_store a)) \<inter>
                      kept rbcd_store {0, 1, 2, 3} (\<lambda>n. n = 3))))"
proof -
  have mem: "(3::ref) \<in> {0, 1, 2, 3}" by simp
  have hyps: "edge_symmetry (heap rbcd_store) \<and> no_duplicate_edges (heap rbcd_store) \<and>
      (\<forall>a\<in>{0, 1, 2, 3}. a \<noteq> 0 \<longrightarrow> (a, 0) \<in> (depends_on (heap rbcd_store))\<^sup>+)"
    using rbcd_symmetry rbcd_no_duplicates rbcd_single_root by (simp add: rbcd_store_def)
  from cloneWithRelationships_keeps_ancestors [OF rbcd_graph mem, of "\<lambda>n. n = 3" 0] hyps
  show ?thesis by blast
qed

theorem cloneWithRelationships_excluded_witness:
  "\<exists>st'. cloneWithRelationships rbcd_store 3 (Some (\<lambda>n. n = 1))
           = Some (Inl CloneResultMissingError, st')"
proof -
  have mem: "(3::ref) \<in> {0, 1, 2, 3}" by simp
  have sym: "edge_symmetry (heap rbcd_store)"
    using rbcd_symmetry by (simp add: rbcd_store_def)
  have excl: "\<forall>n. (3, n) \<in> (depended_by (heap rbcd_store))\<^sup>* \<longrightarrow> \<not> n = 1"
  proof (intro allI impI)
    fix n assume "(3, n) \<in> (depended_by (heap rbcd_store))\<^sup>*"
    then have "n = 3" using rbcd_D_no_dependents by (simp add: rbcd_store_def)
    then show "\<not> n = 1" by simp
  qed
  from cloneWithRelationships_excluded [OF rbcd_graph sym mem excl] show ?thesis .
qed

end
